theory Spec2Isabelle
  imports Complex_Main
begin

section \<open>Gesture smoothing (CameraFeed component)\<close>

text \<open>
  \<open>GestureType\<close> is imported by the component from \<open>cv/gestureTypes\<close>; its four values
  are the keys of the \<open>counts\<close> literal in \<open>computeMajorityGesture\<close>.
\<close>

datatype GestureType = REST | NEXT | PREV | SELECT

definition MAX_HISTORY_LENGTH :: nat where
  "MAX_HISTORY_LENGTH = 7"

definition MIN_HISTORY_LENGTH :: nat where
  "MIN_HISTORY_LENGTH = 4"

subsection \<open>computeMajorityGesture\<close>

text \<open>
  The \<open>counts\<close> object literal. \<open>Object.entries\<close> enumerates string keys in insertion
  order, so the object is an association list in the order of the literal.
\<close>

definition counts_init :: "(GestureType \<times> nat) list" where
  "counts_init = [(REST, 0), (NEXT, 0), (PREV, 0), (SELECT, 0)]"

text \<open>\<open>counts[gesture]++\<close>\<close>

definition increment :: "GestureType \<Rightarrow> (GestureType \<times> nat) list \<Rightarrow> (GestureType \<times> nat) list" where
  "increment gesture counts = map (\<lambda>(k, c). if k = gesture then (k, c + 1) else (k, c)) counts"

text \<open>\<open>for (const gesture of history) counts[gesture]++\<close>\<close>

definition countOccurrences :: "GestureType list \<Rightarrow> (GestureType \<times> nat) list" where
  "countOccurrences history = fold increment history counts_init"

text \<open>
  The second loop: \<open>majorityGesture\<close> starts as \<open>REST\<close>, \<open>maxCount\<close> as 0, and an entry
  replaces the pair only when its count is strictly greater.
\<close>

definition pickStep :: "GestureType \<times> nat \<Rightarrow> GestureType \<times> nat \<Rightarrow> GestureType \<times> nat" where
  "pickStep entry acc =
     (case entry of (gesture, count) \<Rightarrow>
        (case acc of (majorityGesture, maxCount) \<Rightarrow>
           if count > maxCount then (gesture, count) else (majorityGesture, maxCount)))"

definition pickMajority :: "(GestureType \<times> nat) list \<Rightarrow> GestureType" where
  "pickMajority counts = fst (fold pickStep counts (REST, 0))"

text \<open>
  The body of the closure without its cache: what the function computes when the
  quick check fails.
\<close>

definition majorityUncached :: "GestureType list \<Rightarrow> GestureType option" where
  "majorityUncached history =
     (if history = [] then None else Some (pickMajority (countOccurrences history)))"

text \<open>
  The same vote in the words of the design (section 4.1, step 3): count each of the four
  enumerated values over the window and pick the first enumerated value whose count is
  the maximum.
\<close>

definition majority_by_spec :: "GestureType list \<Rightarrow> GestureType option" where
  "majority_by_spec history =
     (if history = [] then None
      else find (\<lambda>g. list_all (\<lambda>g'. count_list history g' \<le> count_list history g)
                  [REST, NEXT, PREV, SELECT])
             [REST, NEXT, PREV, SELECT])"

text \<open>
  The closure's two variables. \<open>lastHistory = [...history]\<close> stores a copy, so the cache
  shares no array with the caller and a list value models it.
\<close>

record memo =
  lastHistory :: "GestureType list"
  lastResult :: "GestureType option"

definition memo_init :: memo where
  "memo_init = \<lparr>lastHistory = [], lastResult = None\<rparr>"

text \<open>
  \<open>history.every((g, i) => g === lastHistory[i])\<close>, evaluated only after the lengths
  were found equal, so every index read is in range.
\<close>

definition every_same :: "GestureType list \<Rightarrow> GestureType list \<Rightarrow> bool" where
  "every_same history prev =
     list_all (\<lambda>(g, i). g = prev ! i) (zip history [0 ..< length history])"

definition computeMajorityGesture :: "memo \<Rightarrow> GestureType list \<Rightarrow> GestureType option \<times> memo" where
  "computeMajorityGesture m history =
     (if length history = length (lastHistory m) \<and> every_same history (lastHistory m)
      then (lastResult m, m)
      else if length history = 0
      then (None, \<lparr>lastHistory = [], lastResult = None\<rparr>)
      else
        let counts = countOccurrences history;
            majorityGesture = pickMajority counts
        in (Some majorityGesture, \<lparr>lastHistory = history, lastResult = Some majorityGesture\<rparr>))"

text \<open>The cache after a sequence of calls, starting from the module's initial closure.\<close>

definition memo_after :: "GestureType list list \<Rightarrow> memo" where
  "memo_after calls = fold (\<lambda>h m. snd (computeMajorityGesture m h)) calls memo_init"

text \<open>The results of a sequence of calls, each made on the cache the previous one left.\<close>

fun call_results :: "memo \<Rightarrow> GestureType list list \<Rightarrow> GestureType option list" where
  "call_results m [] = []"
| "call_results m (h # hs) =
     fst (computeMajorityGesture m h) # call_results (snd (computeMajorityGesture m h)) hs"

text \<open>Position of a gesture in the enumeration order of the \<open>counts\<close> literal.\<close>

fun enum_index :: "GestureType \<Rightarrow> nat" where
  "enum_index REST = 0"
| "enum_index NEXT = 1"
| "enum_index PREV = 2"
| "enum_index SELECT = 3"

text \<open>The cache is consistent when its result is the uncached result of its history.\<close>

definition memo_ok :: "memo \<Rightarrow> bool" where
  "memo_ok m = (lastResult m = majorityUncached (lastHistory m))"

subsection \<open>processPoseResults\<close>

text \<open>
  The state one camera session works on: the two refs of the component, the gesture held
  by the pose context (\<open>currentGesture\<close>), the value of it that the component's last render
  has read from \<open>usePoseContext\<close> (\<open>renderedGesture\<close>, the constant \<open>currentGesture\<close> of the
  component function, which the effect below closes over), and the closure variables of
  \<open>computeMajorityGesture\<close>.
\<close>

record session =
  gestureHistoryRef :: "GestureType list"
  currentGestureRef :: GestureType
  currentGesture :: GestureType
  renderedGesture :: GestureType
  majorityCache :: memo

text \<open>
  Modelled from the spec: the pose context (\<open>cv/poseContext\<close>) is not part of the
  sources. Its \<open>setGesture\<close> replaces the committed stable gesture, which starts at
  \<open>REST\<close>.
\<close>

definition setGesture :: "GestureType \<Rightarrow> session \<Rightarrow> session" where
  "setGesture g s = s\<lparr>currentGesture := g\<rparr>"

definition session_init :: session where
  "session_init =
     \<lparr>gestureHistoryRef = [], currentGestureRef = REST, currentGesture = REST,
      renderedGesture = REST, majorityCache = memo_init\<rparr>"

text \<open>
  The gesture part of \<open>processPoseResults\<close> (the canvas drawing that follows it reads
  no state of the smoother). \<open>poseLandmarks\<close> is \<open>None\<close> when the frame has no
  landmarks. \<open>inferGesture\<close> stands for \<open>inferGestureFromLandmarks\<close> of the gesture
  engine, applied to the converted landmarks at the session's sensitivity; the gesture
  engine is not part of the sources. The first component of the result is the argument
  of the call to \<open>setGesture\<close> that the frame makes, if it makes one.
\<close>

definition processPoseResults ::
  "('lm \<Rightarrow> GestureType) \<Rightarrow> 'lm option \<Rightarrow> session \<Rightarrow> GestureType option \<times> session" where
  "processPoseResults inferGesture poseLandmarks s =
     (case poseLandmarks of
        None \<Rightarrow> (None, s)
      | Some lm \<Rightarrow>
          let inferredGesture = inferGesture lm;
              pushed = gestureHistoryRef s @ [inferredGesture];
              history = (if length pushed > MAX_HISTORY_LENGTH then tl pushed else pushed);
              s1 = s\<lparr>gestureHistoryRef := history\<rparr>
          in if length history \<ge> MIN_HISTORY_LENGTH
             then
               (case computeMajorityGesture (majorityCache s1) history of
                  (majorityGesture, cache) \<Rightarrow>
                    let s2 = s1\<lparr>majorityCache := cache\<rparr>
                    in (case majorityGesture of
                          None \<Rightarrow> (None, s2)
                        | Some mg \<Rightarrow>
                            if mg \<noteq> currentGestureRef s2
                            then (Some mg, setGesture mg s2)
                            else (None, s2)))
             else (None, s1))"

text \<open>
  A render of the component after the context's gesture has changed: the component reads
  the committed gesture.
\<close>

definition render :: "session \<Rightarrow> session" where
  "render s = s\<lparr>renderedGesture := currentGesture s\<rparr>"

text \<open>
  The effect that keeps \<open>currentGestureRef\<close> in sync with the context's gesture
  (\<open>useEffect\<close> with the dependency \<open>currentGesture\<close>). React runs it after a render in
  which \<open>currentGesture\<close> has changed, with the value that this render has read. Nothing
  orders the render and the effect before the next frame is processed, so each is an
  event of its own.
\<close>

definition syncEffect :: "session \<Rightarrow> session" where
  "syncEffect s = s\<lparr>currentGestureRef := renderedGesture s\<rparr>"

text \<open>
  The keyboard fallback (\<open>handleKeyDown\<close> for one of the keys r, n, p, s): the history
  is cleared and the gesture is set directly.
\<close>

definition handleKeyDown :: "GestureType \<Rightarrow> session \<Rightarrow> session" where
  "handleKeyDown gesture s = setGesture gesture (s\<lparr>gestureHistoryRef := []\<rparr>)"

text \<open>
  What happens to a session: a frame is processed, a key is pressed, the component
  renders, or the effect runs.
\<close>

datatype 'lm event = PoseResults "'lm option" | KeyDown GestureType | Render | Effect

fun step :: "('lm \<Rightarrow> GestureType) \<Rightarrow> 'lm event \<Rightarrow> session \<Rightarrow> session" where
  "step inferGesture (PoseResults r) s = snd (processPoseResults inferGesture r s)"
| "step inferGesture (KeyDown g) s = handleKeyDown g s"
| "step inferGesture Render s = render s"
| "step inferGesture Effect s = syncEffect s"

definition run :: "('lm \<Rightarrow> GestureType) \<Rightarrow> 'lm event list \<Rightarrow> session \<Rightarrow> session" where
  "run inferGesture events s = fold (step inferGesture) events s"

text \<open>A run of events, with the emission of each of its frames.\<close>

fun observe ::
  "('lm \<Rightarrow> GestureType) \<Rightarrow> 'lm event list \<Rightarrow> session \<Rightarrow> GestureType option list \<times> session" where
  "observe inferGesture [] s = ([], s)"
| "observe inferGesture (PoseResults r # events) s =
     (case processPoseResults inferGesture r s of
        (e, s') \<Rightarrow> (case observe inferGesture events s' of (es, s'') \<Rightarrow> (e # es, s'')))"
| "observe inferGesture (KeyDown g # events) s = observe inferGesture events (handleKeyDown g s)"
| "observe inferGesture (Render # events) s = observe inferGesture events (render s)"
| "observe inferGesture (Effect # events) s = observe inferGesture events (syncEffect s)"

text \<open>The frames of a run, and the landmarks of those of its frames that carry some.\<close>

fun frames :: "'lm event list \<Rightarrow> 'lm option list" where
  "frames [] = []"
| "frames (PoseResults r # events) = r # frames events"
| "frames (KeyDown g # events) = frames events"
| "frames (Render # events) = frames events"
| "frames (Effect # events) = frames events"

fun landmarks :: "'lm event list \<Rightarrow> 'lm list" where
  "landmarks [] = []"
| "landmarks (PoseResults r # events) =
     (case r of None \<Rightarrow> landmarks events | Some lm \<Rightarrow> lm # landmarks events)"
| "landmarks (KeyDown g # events) = landmarks events"
| "landmarks (Render # events) = landmarks events"
| "landmarks (Effect # events) = landmarks events"

text \<open>An event that is no key press.\<close>

fun keyless :: "'lm event \<Rightarrow> bool" where
  "keyless (PoseResults r) = True"
| "keyless (KeyDown g) = False"
| "keyless Render = True"
| "keyless Effect = True"


text \<open>What holds of every session reached from the initial one.\<close>

definition session_ok :: "session \<Rightarrow> bool" where
  "session_ok s =
     (memo_ok (majorityCache s) \<and> length (gestureHistoryRef s) \<le> MAX_HISTORY_LENGTH)"


text \<open>The history after the push and the eviction of a frame that carries landmarks.\<close>

definition pushed_history :: "GestureType list \<Rightarrow> GestureType \<Rightarrow> GestureType list" where
  "pushed_history h g =
     (if length (h @ [g]) > MAX_HISTORY_LENGTH then tl (h @ [g]) else h @ [g])"

section \<open>Frame dispatch (the \<open>pose.onResults\<close> callback)\<close>

definition TARGET_FPS :: real where
  "TARGET_FPS = 30"

definition FRAME_INTERVAL :: real where
  "FRAME_INTERVAL = 1000 / TARGET_FPS"

text \<open>
  The module-level variables \<open>globalRafId\<close>, \<open>globalPendingResults\<close> and
  \<open>globalLastFrameTime\<close>, together with what the callback acts on: the browser's list of
  animation-frame callbacks that were requested and have not run (by handle, in request
  order), the next handle the browser hands out, and the state \<open>app\<close> that
  \<open>processPoseResults\<close> works on. Times are the milliseconds of \<open>performance.now()\<close>.
\<close>

record ('r, 'a) page =
  globalRafId :: "nat option"
  globalPendingResults :: "'r option"
  globalLastFrameTime :: real
  rafCallbacks :: "nat list"
  nextRafHandle :: nat
  app :: 'a

definition page_init :: "'a \<Rightarrow> ('r, 'a) page" where
  "page_init a =
     \<lparr>globalRafId = None, globalPendingResults = None, globalLastFrameTime = 0,
      rafCallbacks = [], nextRafHandle = 1, app = a\<rparr>"

definition requestAnimationFrame :: "('r, 'a) page \<Rightarrow> nat \<times> ('r, 'a) page" where
  "requestAnimationFrame w =
     (nextRafHandle w,
      w\<lparr>rafCallbacks := rafCallbacks w @ [nextRafHandle w], nextRafHandle := nextRafHandle w + 1\<rparr>)"

definition cancelAnimationFrame :: "nat \<Rightarrow> ('r, 'a) page \<Rightarrow> ('r, 'a) page" where
  "cancelAnimationFrame h w = w\<lparr>rafCallbacks := removeAll h (rafCallbacks w)\<rparr>"

text \<open>
  The callback given to \<open>pose.onResults\<close>, called with \<open>results\<close> when
  \<open>performance.now()\<close> reads \<open>now\<close>. \<open>process\<close> is \<open>processPoseResults\<close> with the
  canvas, the sensitivity, the refs and \<open>setGesture\<close> of the closure. The readiness flag
  that the callback sets first (\<open>setIsPoseReady\<close>) plays no part in the dispatch.
\<close>

definition onResults ::
  "('r \<Rightarrow> 'a \<Rightarrow> 'a) \<Rightarrow> 'r \<Rightarrow> real \<Rightarrow> ('r, 'a) page \<Rightarrow> ('r, 'a) page" where
  "onResults process results now w =
     (let w1 = w\<lparr>globalPendingResults := Some results\<rparr>;
          timeSinceLastFrame = now - globalLastFrameTime w1
      in if timeSinceLastFrame \<ge> FRAME_INTERVAL
         then w1\<lparr>app := process results (app w1), globalLastFrameTime := now,
                 globalPendingResults := None\<rparr>
         else if globalRafId w1 = None
         then (case requestAnimationFrame w1 of (h, w2) \<Rightarrow> w2\<lparr>globalRafId := Some h\<rparr>)
         else w1)"

text \<open>
  The function handed to \<open>requestAnimationFrame\<close>, run when \<open>performance.now()\<close> reads
  \<open>now\<close>.
\<close>

definition rafCallback :: "('r \<Rightarrow> 'a \<Rightarrow> 'a) \<Rightarrow> real \<Rightarrow> ('r, 'a) page \<Rightarrow> ('r, 'a) page" where
  "rafCallback process now w =
     (let w1 = (case globalPendingResults w of
                  Some pending \<Rightarrow>
                    w\<lparr>app := process pending (app w), globalLastFrameTime := now,
                      globalPendingResults := None\<rparr>
                | None \<Rightarrow> w)
      in w1\<lparr>globalRafId := None\<rparr>)"

text \<open>
  The browser's next animation frame: it takes the callbacks requested so far off its
  list and runs them in request order.
\<close>

definition animationFrame :: "('r \<Rightarrow> 'a \<Rightarrow> 'a) \<Rightarrow> real \<Rightarrow> ('r, 'a) page \<Rightarrow> ('r, 'a) page" where
  "animationFrame process now w =
     fold (\<lambda>h. rafCallback process now) (rafCallbacks w) (w\<lparr>rafCallbacks := []\<rparr>)"

text \<open>The scheduler part of the effect's cleanup.\<close>

definition cleanup :: "('r, 'a) page \<Rightarrow> ('r, 'a) page" where
  "cleanup w =
     (let w1 = (case globalRafId w of
                  Some h \<Rightarrow> (cancelAnimationFrame h w)\<lparr>globalRafId := None\<rparr>
                | None \<Rightarrow> w)
      in w1\<lparr>globalPendingResults := None\<rparr>)"

datatype 'r page_event = Results 'r real | AnimationFrame real | Cleanup

fun page_step :: "('r \<Rightarrow> 'a \<Rightarrow> 'a) \<Rightarrow> 'r page_event \<Rightarrow> ('r, 'a) page \<Rightarrow> ('r, 'a) page" where
  "page_step process (Results r now) w = onResults process r now w"
| "page_step process (AnimationFrame now) w = animationFrame process now w"
| "page_step process Cleanup w = cleanup w"

definition page_run ::
  "('r \<Rightarrow> 'a \<Rightarrow> 'a) \<Rightarrow> 'r page_event list \<Rightarrow> ('r, 'a) page \<Rightarrow> ('r, 'a) page" where
  "page_run process events w = fold (page_step process) events w"

text \<open>
  What holds of every page state reached from the initial one: the browser holds a
  requested callback exactly when \<open>globalRafId\<close> is set, and then only that one.
\<close>

definition page_ok :: "('r, 'a) page \<Rightarrow> bool" where
  "page_ok w =
     (case globalRafId w of
        None \<Rightarrow> rafCallbacks w = []
      | Some h \<Rightarrow> rafCallbacks w = [h])"

section \<open>JavaScript values, \<open>JSON\<close> and \<open>parseFloat\<close>\<close>

text \<open>
  The platform functions the sources call. Strings are byte strings (UTF-8). A finite
  number is the rational that its decimal text denotes, so the finite numbers are the
  rationals \<open>i / 10 ^ k\<close> for an integer \<open>i\<close>; rounding to binary64 is outside this model.
\<close>

datatype jsnumber = NaN | PosInfinity | NegInfinity | Finite rat

datatype json =
    JNull
  | JBool bool
  | JNumber jsnumber
  | JString string
  | JArray "json list"
  | JObject "(string \<times> json) list"

datatype error = SyntaxError | TypeError | SecurityError | QuotaExceededError

definition dquote :: char where
  "dquote = CHR 0x22"

definition backslash :: char where
  "backslash = CHR 0x5C"

definition is_digit :: "char \<Rightarrow> bool" where
  "is_digit c = (48 \<le> (of_char c :: nat) \<and> (of_char c :: nat) \<le> 57)"

definition digit_val :: "char \<Rightarrow> nat" where
  "digit_val c = of_char c - 48"

definition digit_char :: "nat \<Rightarrow> char" where
  "digit_char d = char_of (48 + d)"

definition nat_of_digits :: "string \<Rightarrow> nat" where
  "nat_of_digits ds = foldl (\<lambda>a c. 10 * a + digit_val c) 0 ds"

fun show_nat :: "nat \<Rightarrow> string" where
  "show_nat n = (if n < 10 then [digit_char n] else show_nat (n div 10) @ [digit_char (n mod 10)])"

declare show_nat.simps [simp del]

definition show_int :: "int \<Rightarrow> string" where
  "show_int i = (if i < 0 then CHR ''-'' # show_nat (nat (- i)) else show_nat (nat i))"

text \<open>Ten to an integer power, as a rational.\<close>

definition pow10 :: "int \<Rightarrow> rat" where
  "pow10 e = (if 0 \<le> e then 10 ^ nat e else 1 / 10 ^ nat (- e))"

text \<open>The value of the decimal text with integer digits \<open>ip\<close> and fraction digits \<open>fp\<close>.\<close>

definition decimal_value :: "string \<Rightarrow> string \<Rightarrow> rat" where
  "decimal_value ip fp = of_nat (nat_of_digits ip) + of_nat (nat_of_digits fp) / 10 ^ length fp"

text \<open>
  An exponent part at the head of \<open>s\<close>: \<open>e\<close> or \<open>E\<close>, an optional sign, and at least one
  digit. \<open>None\<close> when \<open>s\<close> starts with \<open>e\<close> or \<open>E\<close> and no digits follow.
\<close>

definition lex_exponent :: "string \<Rightarrow> (int \<times> string) option" where
  "lex_exponent s =
     (case s of
        [] \<Rightarrow> Some (0, s)
      | c # r \<Rightarrow>
          if c = CHR ''e'' \<or> c = CHR ''E''
          then
            (let neg = (case r of [] \<Rightarrow> False | d # _ \<Rightarrow> d = CHR ''-'');
                 r1 = (case r of [] \<Rightarrow> r | d # r' \<Rightarrow> if d = CHR ''+'' \<or> d = CHR ''-'' then r' else r);
                 ds = takeWhile is_digit r1
             in if ds = [] then None
                else Some ((if neg then - int (nat_of_digits ds) else int (nat_of_digits ds)),
                           dropWhile is_digit r1))
          else Some (0, s))"

subsection \<open>\<open>JSON.parse\<close>\<close>

definition is_json_ws :: "char \<Rightarrow> bool" where
  "is_json_ws c = (c = CHR 0x20 \<or> c = CHR 0x09 \<or> c = CHR 0x0A \<or> c = CHR 0x0D)"

text \<open>An optional minus sign at the head of \<open>s\<close>.\<close>

definition lex_minus :: "string \<Rightarrow> bool \<times> string" where
  "lex_minus s =
     (case s of
        [] \<Rightarrow> (False, s)
      | c # r \<Rightarrow> if c = CHR ''-'' then (True, r) else (False, s))"

text \<open>
  An optional fraction at the head of \<open>s\<close>: a point and at least one digit. \<open>None\<close> when
  \<open>s\<close> starts with a point and no digit follows.
\<close>

definition lex_fraction :: "string \<Rightarrow> (string \<times> string) option" where
  "lex_fraction s =
     (case s of
        [] \<Rightarrow> Some ([], s)
      | c # r \<Rightarrow>
          if c = CHR ''.''
          then (if takeWhile is_digit r = [] then None
                else Some (takeWhile is_digit r, dropWhile is_digit r))
          else Some ([], s))"

text \<open>
  A JSON number at the head of \<open>s\<close>: an optional minus, an integer part without a
  superfluous leading zero, an optional fraction, an optional exponent.
\<close>

definition lex_number :: "string \<Rightarrow> (rat \<times> string) option" where
  "lex_number s =
     (case lex_minus s of
        (neg, s1) \<Rightarrow>
          let ip = takeWhile is_digit s1
          in if ip = [] \<or> (1 < length ip \<and> hd ip = CHR ''0'') then None
             else
               (case lex_fraction (dropWhile is_digit s1) of
                  None \<Rightarrow> None
                | Some (fp, s3) \<Rightarrow>
                    (case lex_exponent s3 of
                       None \<Rightarrow> None
                     | Some (e, s4) \<Rightarrow>
                         Some ((if neg then - 1 else 1) * decimal_value ip fp * pow10 e, s4))))"

definition is_hex :: "char \<Rightarrow> bool" where
  "is_hex c = (is_digit c \<or> (97 \<le> (of_char c :: nat) \<and> (of_char c :: nat) \<le> 102)
     \<or> (65 \<le> (of_char c :: nat) \<and> (of_char c :: nat) \<le> 70))"

definition hex_val :: "char \<Rightarrow> nat" where
  "hex_val c =
     (if is_digit c then of_char c - 48
      else if 97 \<le> (of_char c :: nat) then of_char c - 87 else of_char c - 55)"

text \<open>The UTF-8 bytes of a code point below \<open>0x10000\<close>.\<close>

definition utf8 :: "nat \<Rightarrow> string" where
  "utf8 cp =
     (if cp < 128 then [char_of cp]
      else if cp < 2048 then [char_of (192 + cp div 64), char_of (128 + cp mod 64)]
      else [char_of (224 + cp div 4096), char_of (128 + (cp div 64) mod 64),
            char_of (128 + cp mod 64)])"

definition unescape :: "char \<Rightarrow> char option" where
  "unescape e =
     (if e = dquote then Some dquote
      else if e = backslash then Some backslash
      else if e = CHR ''/'' then Some CHR ''/''
      else if e = CHR ''b'' then Some (CHR 0x08)
      else if e = CHR ''f'' then Some (CHR 0x0C)
      else if e = CHR ''n'' then Some (CHR 0x0A)
      else if e = CHR ''r'' then Some (CHR 0x0D)
      else if e = CHR ''t'' then Some (CHR 0x09)
      else None)"

text \<open>
  The rest of a string literal after its opening quote: the decoded characters (collected
  in reverse in \<open>acc\<close>) and the input after the closing quote.
\<close>

definition hex4 :: "string \<Rightarrow> nat" where
  "hex4 hs = foldl (\<lambda>a h. 16 * a + hex_val h) 0 hs"

function lex_string :: "string \<Rightarrow> string \<Rightarrow> (string \<times> string) option" where
  "lex_string acc [] = None"
| "lex_string acc (c # cs) =
     (if c = dquote then Some (rev acc, cs)
      else if c = backslash then
        (case cs of
           [] \<Rightarrow> None
         | e # cs1 \<Rightarrow>
             if e = CHR ''u'' then
               (if length (take 4 cs1) = 4 \<and> list_all is_hex (take 4 cs1)
                then lex_string (rev (utf8 (hex4 (take 4 cs1))) @ acc) (drop 4 cs1)
                else None)
             else
               (case unescape e of
                  None \<Rightarrow> None
                | Some d \<Rightarrow> lex_string (d # acc) cs1))
      else if (of_char c :: nat) < 32 then None
      else lex_string (c # acc) cs)"
  by pat_completeness auto
termination
  by (relation "measure (\<lambda>(acc, s). length s)") auto

datatype token =
    LBrace | RBrace | LBracket | RBracket | Colon | Comma
  | TString string | TNumber rat | TTrue | TFalse | TNull

lemma lex_string_shorter: "lex_string acc s = Some (str, rest) \<Longrightarrow> length rest < length s"
proof (induction acc s rule: lex_string.induct)
  case (1 acc)
  then show ?case by simp
next
  case (2 acc c cs)
  note prem = \<open>lex_string acc (c # cs) = Some (str, rest)\<close>
  show ?case
  proof (cases "c = dquote")
    case True
    then show ?thesis using prem by auto
  next
    case nq: False
    show ?thesis
    proof (cases "c = backslash")
      case True
      then obtain e cs1 where cs: "cs = e # cs1"
        using prem nq by (cases cs) auto
      show ?thesis
      proof (cases "e = CHR ''u''")
        case u: True
        then have "length rest < length (drop 4 cs1)"
          using prem nq True cs 2(1) [OF nq True cs u]
          by (auto split: if_splits)
        then show ?thesis using cs by simp
      next
        case nu: False
        then obtain d where d: "unescape e = Some d"
          using prem nq True cs by (auto split: option.splits)
        have "length rest < length cs1"
          using prem nq True cs nu d 2(2) [OF nq True cs nu d]
          by simp
        then show ?thesis using cs by simp
      qed
    next
      case nb: False
      then have "length rest < length cs"
        using prem nq 2(3) [OF nq nb]
        by (auto split: if_splits)
      then show ?thesis by simp
    qed
  qed
qed

lemma lex_exponent_shorter: "lex_exponent s = Some (e, rest) \<Longrightarrow> length rest \<le> length s"
proof -
  have d: "\<And>r. length (dropWhile is_digit r) \<le> length r"
    by (rule length_dropWhile_le)
  assume "lex_exponent s = Some (e, rest)"
  then show ?thesis
    using d
    by (auto simp: lex_exponent_def Let_def le_SucI split: list.splits if_splits)
qed

lemma lex_fraction_shorter: "lex_fraction s = Some (fp, rest) \<Longrightarrow> length rest \<le> length s"
  by (auto simp: lex_fraction_def le_SucI length_dropWhile_le split: list.splits if_splits)

lemma lex_minus_shorter: "lex_minus s = (neg, rest) \<Longrightarrow> length rest \<le> length s"
  by (auto simp: lex_minus_def split: list.splits if_splits)

lemma dropWhile_shorter: "takeWhile P s \<noteq> [] \<Longrightarrow> length (dropWhile P s) < length s"
  by (cases s) (auto simp: le_imp_less_Suc length_dropWhile_le split: if_splits)

lemma lex_number_shorter:
  assumes "lex_number s = Some (q, rest)"
  shows "length rest < length s"
proof -
  obtain neg s1 where m: "lex_minus s = (neg, s1)" by (cases "lex_minus s")
  have ip: "takeWhile is_digit s1 \<noteq> []"
    using assms by (auto simp: lex_number_def m Let_def split: if_splits)
  obtain fp s3 where f: "lex_fraction (dropWhile is_digit s1) = Some (fp, s3)"
    using assms by (auto simp: lex_number_def m Let_def split: if_splits option.splits)
  obtain e where e: "lex_exponent s3 = Some (e, rest)"
    using assms ip by (auto simp: lex_number_def m f Let_def split: if_splits option.splits)
  have "length rest \<le> length s3" using e by (rule lex_exponent_shorter)
  also have "\<dots> \<le> length (dropWhile is_digit s1)" using f by (rule lex_fraction_shorter)
  also have "\<dots> < length s1" using ip by (rule dropWhile_shorter)
  also have "\<dots> \<le> length s" using m by (rule lex_minus_shorter)
  finally show ?thesis .
qed

text \<open>
  The tokens of a JSON text; \<open>None\<close> when some character starts no token. The recursion
  continues on the input that the string and number lexers leave, which is shorter.
\<close>

function tokenize :: "string \<Rightarrow> token list option" where
  "tokenize [] = Some []"
| "tokenize (c # cs) =
     (if is_json_ws c then tokenize cs
      else if c = CHR ''-'' \<or> is_digit c then
        (case lex_number (c # cs) of
           None \<Rightarrow> None
         | Some (q, rest) \<Rightarrow> map_option ((#) (TNumber q)) (tokenize rest))
      else if c = dquote then
        (case lex_string [] cs of
           None \<Rightarrow> None
         | Some (str, rest) \<Rightarrow> map_option ((#) (TString str)) (tokenize rest))
      else if c = CHR ''{'' then map_option ((#) LBrace) (tokenize cs)
      else if c = CHR ''}'' then map_option ((#) RBrace) (tokenize cs)
      else if c = CHR ''['' then map_option ((#) LBracket) (tokenize cs)
      else if c = CHR '']'' then map_option ((#) RBracket) (tokenize cs)
      else if c = CHR '':'' then map_option ((#) Colon) (tokenize cs)
      else if c = CHR '','' then map_option ((#) Comma) (tokenize cs)
      else if take 3 cs = ''rue'' \<and> c = CHR ''t'' then map_option ((#) TTrue) (tokenize (drop 3 cs))
      else if take 3 cs = ''ull'' \<and> c = CHR ''n'' then map_option ((#) TNull) (tokenize (drop 3 cs))
      else if take 4 cs = ''alse'' \<and> c = CHR ''f'' then map_option ((#) TFalse) (tokenize (drop 4 cs))
      else None)"
  by pat_completeness auto
termination
  by (relation "measure length")
    (auto dest: lex_number_shorter lex_string_shorter simp: less_Suc_eq_le le_imp_less_Suc)

declare tokenize.simps [simp del]

text \<open>
  The grammar, as a machine over the tokens with a stack of the arrays and objects that
  are open: the members read so far (latest first) and, for an object, the key whose
  value is being read.
\<close>

datatype frame = InArray "json list" | InObject "(string \<times> json) list" string

text \<open>A member's key and colon at the head of the tokens.\<close>

definition key_colon :: "token list \<Rightarrow> (string \<times> token list) option" where
  "key_colon ts =
     (case ts of
        TString k # Colon # ts' \<Rightarrow> Some (k, ts')
      | _ \<Rightarrow> None)"

lemma key_colon_shorter: "key_colon ts = Some (k, ts') \<Longrightarrow> length ts' < length ts"
  by (auto simp: key_colon_def split: list.splits token.splits)

function parse_value :: "frame list \<Rightarrow> token list \<Rightarrow> json option"
  and parse_after :: "json \<Rightarrow> frame list \<Rightarrow> token list \<Rightarrow> json option" where
  "parse_value st [] = None"
| "parse_value st (t # ts) =
     (case t of
        TNull \<Rightarrow> parse_after JNull st ts
      | TTrue \<Rightarrow> parse_after (JBool True) st ts
      | TFalse \<Rightarrow> parse_after (JBool False) st ts
      | TNumber q \<Rightarrow> parse_after (JNumber (Finite q)) st ts
      | TString s \<Rightarrow> parse_after (JString s) st ts
      | LBracket \<Rightarrow>
          if ts \<noteq> [] \<and> hd ts = RBracket then parse_after (JArray []) st (tl ts)
          else parse_value (InArray [] # st) ts
      | LBrace \<Rightarrow>
          if ts \<noteq> [] \<and> hd ts = RBrace then parse_after (JObject []) st (tl ts)
          else (case key_colon ts of
                  Some (k, ts') \<Rightarrow> parse_value (InObject [] k # st) ts'
                | None \<Rightarrow> None)
      | _ \<Rightarrow> None)"
| "parse_after v [] ts = (if ts = [] then Some v else None)"
| "parse_after v (f # st) [] = None"
| "parse_after v (InArray acc # st) (t # ts) =
     (if t = Comma then parse_value (InArray (v # acc) # st) ts
      else if t = RBracket then parse_after (JArray (rev (v # acc))) st ts
      else None)"
| "parse_after v (InObject acc k # st) (t # ts) =
     (if t = Comma then
        (case key_colon ts of
           Some (k', ts') \<Rightarrow> parse_value (InObject ((k, v) # acc) k' # st) ts'
         | None \<Rightarrow> None)
      else if t = RBrace then parse_after (JObject (rev ((k, v) # acc))) st ts
      else None)"
  by pat_completeness auto
termination
  by (relation "measure (\<lambda>x. case x of Inl (st, ts) \<Rightarrow> length ts | Inr (v, st, ts) \<Rightarrow> length ts)")
    (auto dest: key_colon_shorter simp: less_Suc_eq_le intro: less_imp_le)

declare parse_value.simps [simp del]
declare parse_after.simps [simp del]

definition JSON_parse :: "string \<Rightarrow> error + json" where
  "JSON_parse text =
     (case tokenize text of
        None \<Rightarrow> Inl SyntaxError
      | Some ts \<Rightarrow>
          (case parse_value [] ts of
             None \<Rightarrow> Inl SyntaxError
           | Some v \<Rightarrow> Inr v))"

text \<open>
  Reading a property of a parsed value: \<open>null\<close> has none (reading throws), an object has
  its members, of which the last with the name counts, and for the names read below
  (\<open>index\<close>, \<open>completed\<close>, \<open>showTranslation\<close>) a boolean, number, string or array has
  none, so the result is \<open>undefined\<close> (\<open>None\<close>).
\<close>

definition getProperty :: "json \<Rightarrow> string \<Rightarrow> error + json option" where
  "getProperty v name =
     (case v of
        JNull \<Rightarrow> Inl TypeError
      | JObject members \<Rightarrow> Inr (map_of (rev members) name)
      | _ \<Rightarrow> Inr None)"

text \<open>\<open>typeof x === 'number'\<close> and \<open>typeof x === 'boolean'\<close> of a property that was read.\<close>

definition is_number :: "json option \<Rightarrow> bool" where
  "is_number x = (case x of Some (JNumber _) \<Rightarrow> True | _ \<Rightarrow> False)"

definition is_boolean :: "json option \<Rightarrow> bool" where
  "is_boolean x = (case x of Some (JBool _) \<Rightarrow> True | _ \<Rightarrow> False)"

subsection \<open>Number to string\<close>

text \<open>
  At most \<open>n\<close> digits of the decimal expansion of a fraction \<open>0 \<le> q < 1\<close>, stopping where
  the expansion ends.
\<close>

fun frac_digits :: "nat \<Rightarrow> rat \<Rightarrow> string" where
  "frac_digits 0 q = []"
| "frac_digits (Suc n) q =
     (if q = 0 then []
      else digit_char (nat \<lfloor>10 * q\<rfloor>) # frac_digits n (10 * q - of_int \<lfloor>10 * q\<rfloor>))"

text \<open>
  \<open>Number::toString\<close>. An integer is printed by its decimal digits, as JavaScript prints
  an integer below \<open>10\<close> to the 21 in magnitude. Other finite numbers are printed by their
  decimal expansion, which is the shortest text that denotes the number. The expansion of
  a number that some decimal text denotes ends after fewer digits than its denominator
  counts, so the denominator bounds the digits that are produced. JavaScript's exponent
  notation for very large and very small numbers is not modelled.
\<close>

definition number_to_string :: "jsnumber \<Rightarrow> string" where
  "number_to_string x =
     (case x of
        NaN \<Rightarrow> ''NaN''
      | PosInfinity \<Rightarrow> ''Infinity''
      | NegInfinity \<Rightarrow> ''-Infinity''
      | Finite q \<Rightarrow>
          if q = of_int \<lfloor>q\<rfloor> then show_int \<lfloor>q\<rfloor>
          else (if q < 0 then ''-'' else []) @ show_nat (nat \<lfloor>\<bar>q\<bar>\<rfloor>) @ ''.''
               @ frac_digits (nat (snd (quotient_of q))) (\<bar>q\<bar> - of_int \<lfloor>\<bar>q\<bar>\<rfloor>))"

subsection \<open>\<open>parseFloat\<close>\<close>

definition is_js_ws :: "char \<Rightarrow> bool" where
  "is_js_ws c = (c = CHR 0x20 \<or> c = CHR 0x09 \<or> c = CHR 0x0A \<or> c = CHR 0x0B \<or> c = CHR 0x0C
     \<or> c = CHR 0x0D)"

text \<open>
  \<open>parseFloat\<close>: leading white space is skipped (of which the ASCII characters are
  modelled), then the longest prefix that is a decimal literal is read: an optional sign,
  then \<open>Infinity\<close> or digits with an optional fraction and exponent. \<open>NaN\<close> when there is
  no such prefix.
\<close>

definition parseFloat :: "string \<Rightarrow> jsnumber" where
  "parseFloat text =
     (let s0 = dropWhile is_js_ws text;
          neg = (case s0 of [] \<Rightarrow> False | c # _ \<Rightarrow> c = CHR ''-'');
          s1 = (case s0 of
                  [] \<Rightarrow> s0
                | c # r \<Rightarrow> if c = CHR ''+'' \<or> c = CHR ''-'' then r else s0)
      in if take 8 s1 = ''Infinity'' then (if neg then NegInfinity else PosInfinity)
         else
           let ip = takeWhile is_digit s1;
               s2 = dropWhile is_digit s1;
               fp = (case s2 of
                       [] \<Rightarrow> []
                     | c # r \<Rightarrow> if c = CHR ''.'' then takeWhile is_digit r else []);
               s3 = (case s2 of
                       [] \<Rightarrow> s2
                     | c # r \<Rightarrow> if c = CHR ''.'' then dropWhile is_digit r else s2)
           in if ip = [] \<and> fp = [] then NaN
              else
                (case lex_exponent s3 of
                   None \<Rightarrow> Finite ((if neg then - 1 else 1) * decimal_value ip fp)
                 | Some (e, _) \<Rightarrow>
                     Finite ((if neg then - 1 else 1) * decimal_value ip fp * pow10 e)))"

definition isNaN :: "jsnumber \<Rightarrow> bool" where
  "isNaN x = (x = NaN)"

text \<open>\<open>x <= y\<close> and \<open>x >= y\<close> on numbers: false when either is \<open>NaN\<close>.\<close>

fun js_le :: "jsnumber \<Rightarrow> jsnumber \<Rightarrow> bool" where
  "js_le NaN _ = False"
| "js_le _ NaN = False"
| "js_le NegInfinity _ = True"
| "js_le _ PosInfinity = True"
| "js_le PosInfinity _ = False"
| "js_le _ NegInfinity = False"
| "js_le (Finite a) (Finite b) = (a \<le> b)"

definition js_ge :: "jsnumber \<Rightarrow> jsnumber \<Rightarrow> bool" where
  "js_ge x y = js_le y x"

section \<open>Progress storage (\<open>loadProgress\<close>, \<open>saveProgress\<close>)\<close>

subsection \<open>\<open>localStorage\<close>\<close>

text \<open>
  The browser's storage as the sources use it. Every access throws when the storage is
  not accessible (storage disabled for the page), and \<open>setItem\<close> throws when the quota is
  exceeded. \<open>writeLog\<close> records the writes that the storage accepted, in order; no code
  reads it.
\<close>

record storage =
  items :: "string \<rightharpoonup> string"
  accessible :: bool
  quotaExceeded :: bool
  writeLog :: "(string \<times> string) list"

definition getItem :: "string \<Rightarrow> storage \<Rightarrow> error + string option" where
  "getItem key ls = (if accessible ls then Inr (items ls key) else Inl SecurityError)"

definition setItem :: "string \<Rightarrow> string \<Rightarrow> storage \<Rightarrow> error + storage" where
  "setItem key v ls =
     (if \<not> accessible ls then Inl SecurityError
      else if quotaExceeded ls then Inl QuotaExceededError
      else Inr (ls\<lparr>items := (items ls)(key \<mapsto> v), writeLog := writeLog ls @ [(key, v)]\<rparr>))"

definition removeItem :: "string \<Rightarrow> storage \<Rightarrow> error + storage" where
  "removeItem key ls =
     (if accessible ls then Inr (ls\<lparr>items := (items ls)(key := None)\<rparr>) else Inl SecurityError)"

subsection \<open>\<open>LessonProgress\<close> and its JSON text\<close>

record LessonProgress =
  index :: jsnumber
  completed :: bool
  showTranslation :: bool

definition STORAGE_PREFIX :: string where
  "STORAGE_PREFIX = ''progress:''"

definition DEBOUNCE_MS :: nat where
  "DEBOUNCE_MS = 200"

definition quoted :: "string \<Rightarrow> string" where
  "quoted s = dquote # s @ [dquote]"

text \<open>\<open>JSON.stringify\<close> of a number: a number that is not finite is written as \<open>null\<close>.\<close>

definition json_number :: "jsnumber \<Rightarrow> string" where
  "json_number x = (case x of Finite q \<Rightarrow> number_to_string x | _ \<Rightarrow> ''null'')"

definition json_bool :: "bool \<Rightarrow> string" where
  "json_bool b = (if b then ''true'' else ''false'')"

text \<open>
  \<open>JSON.stringify(data)\<close> for an object with the three fields of \<open>LessonProgress\<close>, in the
  order of the interface.
\<close>

definition JSON_stringify :: "LessonProgress \<Rightarrow> string" where
  "JSON_stringify data =
     ''{'' @ quoted ''index'' @ '':'' @ json_number (index data)
     @ '','' @ quoted ''completed'' @ '':'' @ json_bool (completed data)
     @ '','' @ quoted ''showTranslation'' @ '':'' @ json_bool (showTranslation data) @ ''}''"

subsection \<open>\<open>loadProgress\<close>\<close>

text \<open>
  The validation of the parsed value, with the property reads in the order of the
  \<open>&&\<close> chain; a read throws on \<open>null\<close>.
\<close>

definition validate :: "json \<Rightarrow> error + LessonProgress option" where
  "validate parsed =
     (case getProperty parsed ''index'' of
        Inl e \<Rightarrow> Inl e
      | Inr i \<Rightarrow>
          if \<not> is_number i then Inr None
          else
            (case getProperty parsed ''completed'' of
               Inl e \<Rightarrow> Inl e
             | Inr c \<Rightarrow>
                 if \<not> is_boolean c then Inr None
                 else
                   (case getProperty parsed ''showTranslation'' of
                      Inl e \<Rightarrow> Inl e
                    | Inr t \<Rightarrow>
                        if \<not> is_boolean t then Inr None
                        else
                          (case (i, c, t) of
                             (Some (JNumber n), Some (JBool b), Some (JBool b')) \<Rightarrow>
                               Inr (Some \<lparr>index = n, completed = b, showTranslation = b'\<rparr>)
                           | _ \<Rightarrow> Inr None))))"

text \<open>The body of the \<open>try\<close> block; \<open>Inl\<close> is an exception that leaves it.\<close>

definition loadProgress_try :: "string \<Rightarrow> storage \<Rightarrow> error + (LessonProgress option \<times> storage)" where
  "loadProgress_try storageKey ls =
     (case getItem storageKey ls of
        Inl e \<Rightarrow> Inl e
      | Inr stored \<Rightarrow>
          (case stored of
             None \<Rightarrow> Inr (None, ls)
           | Some text \<Rightarrow>
               if text = [] then Inr (None, ls)
               else
                 (case JSON_parse text of
                    Inl e \<Rightarrow> Inl e
                  | Inr parsed \<Rightarrow>
                      (case validate parsed of
                         Inl e \<Rightarrow> Inl e
                       | Inr (Some progress) \<Rightarrow> Inr (Some progress, ls)
                       | Inr None \<Rightarrow>
                           (case removeItem storageKey ls of
                              Inl e \<Rightarrow> Inl e
                            | Inr ls' \<Rightarrow> Inr (None, ls'))))))"

text \<open>
  \<open>loadProgress\<close>: the result and the storage it leaves. The \<open>catch\<close> block removes the
  entry, ignoring a failure of the removal, and returns \<open>null\<close>.
\<close>

definition loadProgress :: "string \<Rightarrow> storage \<Rightarrow> error + (LessonProgress option \<times> storage)" where
  "loadProgress categoryId ls =
     (if categoryId = [] then Inr (None, ls)
      else
        let storageKey = STORAGE_PREFIX @ categoryId
        in (case loadProgress_try storageKey ls of
              Inr r \<Rightarrow> Inr r
            | Inl e \<Rightarrow>
                (case removeItem storageKey ls of
                   Inr ls' \<Rightarrow> Inr (None, ls')
                 | Inl e' \<Rightarrow> Inr (None, ls))))"

text \<open>
  A stored text is malformed when it does not parse, or parses to a value without a
  number \<open>index\<close>, a boolean \<open>completed\<close> or a boolean \<open>showTranslation\<close>.
\<close>

definition well_formed :: "string \<Rightarrow> bool" where
  "well_formed text =
     (case JSON_parse text of
        Inr (JObject members) \<Rightarrow>
          is_number (map_of (rev members) ''index'')
          \<and> is_boolean (map_of (rev members) ''completed'')
          \<and> is_boolean (map_of (rev members) ''showTranslation'')
      | _ \<Rightarrow> False)"

subsection \<open>\<open>saveProgress\<close> and the debounced write\<close>

text \<open>
  The module's two maps and what they act on: the storage, the browser's table of
  pending timeouts (handle, due time in milliseconds, and the category of the closure
  \<open>() => debouncedWriteProgress(categoryId)\<close>), the next handle and the clock.
\<close>

record progress_module =
  debounceTimers :: "string \<rightharpoonup> nat"
  pendingWrites :: "string \<rightharpoonup> LessonProgress"
  localStorage :: storage
  timeouts :: "(nat \<times> nat \<times> string) list"
  nextTimeout :: nat
  clock :: nat

definition module_init :: "storage \<Rightarrow> progress_module" where
  "module_init ls =
     \<lparr>debounceTimers = Map.empty, pendingWrites = Map.empty, localStorage = ls,
      timeouts = [], nextTimeout = 1, clock = 0\<rparr>"

definition setTimeout :: "string \<Rightarrow> nat \<Rightarrow> progress_module \<Rightarrow> nat \<times> progress_module" where
  "setTimeout categoryId delay m =
     (nextTimeout m,
      m\<lparr>timeouts := timeouts m @ [(nextTimeout m, clock m + delay, categoryId)],
        nextTimeout := nextTimeout m + 1\<rparr>)"

definition clearTimeout :: "nat \<Rightarrow> progress_module \<Rightarrow> progress_module" where
  "clearTimeout h m = m\<lparr>timeouts := filter (\<lambda>e. fst e \<noteq> h) (timeouts m)\<rparr>"

text \<open>
  \<open>debouncedWriteProgress\<close>. The \<open>try\<close> around the write swallows its exception; the two
  entries of the category are deleted in either case.
\<close>

definition debouncedWriteProgress :: "string \<Rightarrow> progress_module \<Rightarrow> progress_module" where
  "debouncedWriteProgress categoryId m =
     (case pendingWrites m categoryId of
        None \<Rightarrow> m
      | Some data \<Rightarrow>
          let storageKey = STORAGE_PREFIX @ categoryId;
              serialized = JSON_stringify data;
              m1 = (case setItem storageKey serialized (localStorage m) of
                      Inr ls \<Rightarrow> m\<lparr>localStorage := ls\<rparr>
                    | Inl e \<Rightarrow> m)
          in m1\<lparr>pendingWrites := (pendingWrites m1)(categoryId := None),
                debounceTimers := (debounceTimers m1)(categoryId := None)\<rparr>)"

text \<open>
  \<open>saveProgress\<close>. A timer handle is truthy when it is not 0; the browser hands out
  positive handles.
\<close>

definition saveProgress :: "string \<Rightarrow> LessonProgress \<Rightarrow> progress_module \<Rightarrow> progress_module" where
  "saveProgress categoryId data m =
     (if categoryId = [] then m
      else
        let m1 = m\<lparr>pendingWrites := (pendingWrites m)(categoryId \<mapsto> data)\<rparr>;
            m2 = (case debounceTimers m1 categoryId of
                    Some existingTimer \<Rightarrow>
                      if existingTimer \<noteq> 0 then clearTimeout existingTimer m1 else m1
                  | None \<Rightarrow> m1)
        in (case setTimeout categoryId DEBOUNCE_MS m2 of
              (timer, m3) \<Rightarrow> m3\<lparr>debounceTimers := (debounceTimers m3)(categoryId \<mapsto> timer)\<rparr>))"

text \<open>
  The browser runs a timeout: it takes it off its table and calls the closure.
\<close>

definition fire :: "nat \<times> nat \<times> string \<Rightarrow> progress_module \<Rightarrow> progress_module" where
  "fire e m =
     debouncedWriteProgress (snd (snd e))
       (m\<lparr>timeouts := filter (\<lambda>e'. fst e' \<noteq> fst e) (timeouts m), clock := fst (snd e)\<rparr>)"

text \<open>
  The timeouts that are due at time \<open>t\<close>, in the order of their due times, and in the
  order they were set where these are equal.
\<close>

definition due :: "nat \<Rightarrow> progress_module \<Rightarrow> (nat \<times> nat \<times> string) list" where
  "due t m = sort_key (\<lambda>e. fst (snd e)) (filter (\<lambda>e. fst (snd e) \<le> t) (timeouts m))"

text \<open>
  Time passes: \<open>dt\<close> milliseconds later the timeouts that fell due have run. The closures
  set and clear no timeout, so the timeouts that run are those due at the start.
\<close>

definition advance :: "nat \<Rightarrow> progress_module \<Rightarrow> progress_module" where
  "advance dt m = (fold fire (due (clock m + dt) m) m)\<lparr>clock := clock m + dt\<rparr>"

text \<open>
  A burst of requests for one category: each request comes \<open>gap\<close> milliseconds after the
  one before it.
\<close>

fun burst :: "string \<Rightarrow> (nat \<times> LessonProgress) list \<Rightarrow> progress_module \<Rightarrow> progress_module" where
  "burst categoryId [] m = m"
| "burst categoryId ((gap, data) # rest) m =
     burst categoryId rest (saveProgress categoryId data (advance gap m))"

text \<open>The writes that the storage accepted under a key.\<close>

definition writes_to :: "string \<Rightarrow> progress_module \<Rightarrow> string list" where
  "writes_to key m = map snd (filter (\<lambda>w. fst w = key) (writeLog (localStorage m)))"

text \<open>
  What holds of every module state reached from the initial one: the pending timeouts
  have distinct positive handles that the browser has handed out, and each is the one
  registered for its category.
\<close>

definition module_ok :: "progress_module \<Rightarrow> bool" where
  "module_ok m =
     (0 < nextTimeout m \<and> distinct (map fst (timeouts m))
      \<and> list_all (\<lambda>e. fst e \<noteq> 0 \<and> fst e < nextTimeout m
                      \<and> debounceTimers m (snd (snd e)) = Some (fst e)) (timeouts m))"

datatype progress_event = Save string LessonProgress | Wait nat | Load string

fun module_step :: "progress_event \<Rightarrow> progress_module \<Rightarrow> progress_module" where
  "module_step (Save c d) m = saveProgress c d m"
| "module_step (Wait dt) m = advance dt m"
| "module_step (Load c) m =
     (case loadProgress c (localStorage m) of
        Inr (r, ls) \<Rightarrow> m\<lparr>localStorage := ls\<rparr>
      | Inl e \<Rightarrow> m)"

definition module_run :: "progress_event list \<Rightarrow> progress_module \<Rightarrow> progress_module" where
  "module_run events m = fold module_step events m"

section \<open>Gesture sensitivity setting\<close>

definition DEFAULT_GESTURE_SENSITIVITY :: jsnumber where
  "DEFAULT_GESTURE_SENSITIVITY = Finite (12 / 100)"

text \<open>\<open>loadNumberFromStorage\<close> of the settings panel.\<close>

definition loadNumberFromStorage :: "string \<Rightarrow> jsnumber \<Rightarrow> storage \<Rightarrow> jsnumber" where
  "loadNumberFromStorage key defaultValue ls =
     (case getItem key ls of
        Inl e \<Rightarrow> defaultValue
      | Inr None \<Rightarrow> defaultValue
      | Inr (Some stored) \<Rightarrow>
          let parsed = parseFloat stored
          in if \<not> isNaN parsed then parsed else defaultValue)"

definition loadGestureSensitivity :: "storage \<Rightarrow> jsnumber" where
  "loadGestureSensitivity ls =
     loadNumberFromStorage ''gestureSensitivity'' DEFAULT_GESTURE_SENSITIVITY ls"

text \<open>The initializer of \<open>numericSensitivity\<close> in the camera feed.\<close>

definition numericSensitivity_init :: "storage \<Rightarrow> jsnumber" where
  "numericSensitivity_init ls =
     (case getItem ''gestureSensitivity'' ls of
        Inl e \<Rightarrow> Finite (12 / 100)
      | Inr None \<Rightarrow> Finite (12 / 100)
      | Inr (Some stored) \<Rightarrow>
          let parsed = parseFloat stored
          in if \<not> isNaN parsed \<and> js_ge parsed (Finite 0) \<and> js_le parsed (Finite 1)
             then parsed else Finite (12 / 100))"

text \<open>An accessible storage below its quota that holds one entry.\<close>

definition single_entry :: "string \<Rightarrow> string \<Rightarrow> storage" where
  "single_entry key text =
     \<lparr>items = [key \<mapsto> text], accessible = True, quotaExceeded = False, writeLog = []\<rparr>"

text \<open>A number between 0 and 1.\<close>

definition in_unit_range :: "jsnumber \<Rightarrow> bool" where
  "in_unit_range x = (js_ge x (Finite 0) \<and> js_le x (Finite 1))"

text \<open>A storage that accepts a write.\<close>

definition writable :: "storage \<Rightarrow> bool" where
  "writable ls = (accessible ls \<and> \<not> quotaExceeded ls)"

text \<open>An accessible, empty storage, below its quota or at it.\<close>

definition empty_storage :: storage where
  "empty_storage = \<lparr>items = Map.empty, accessible = True, quotaExceeded = False, writeLog = []\<rparr>"

definition full_storage :: storage where
  "full_storage = \<lparr>items = Map.empty, accessible = True, quotaExceeded = True, writeLog = []\<rparr>"

text \<open>The pending timeouts of a category.\<close>

definition timeouts_of :: "string \<Rightarrow> progress_module \<Rightarrow> (nat \<times> nat \<times> string) list" where
  "timeouts_of categoryId m = filter (\<lambda>e. snd (snd e) = categoryId) (timeouts m)"

text \<open>
  A request, then \<open>dt\<close> milliseconds without another request, then a load of the
  category: the result of the load.
\<close>

definition save_wait_load ::
  "string \<Rightarrow> LessonProgress \<Rightarrow> nat \<Rightarrow> progress_module \<Rightarrow> error + LessonProgress option" where
  "save_wait_load categoryId data dt m =
     map_sum id fst
       (loadProgress categoryId (localStorage (advance dt (saveProgress categoryId data m))))"

text \<open>
  The pending timeouts that \<open>saveProgress\<close> leaves when it has cleared the timeout
  registered for the category.
\<close>

definition remaining :: "string \<Rightarrow> progress_module \<Rightarrow> (nat \<times> nat \<times> string) list" where
  "remaining categoryId m =
     (case debounceTimers m categoryId of
        Some h \<Rightarrow> if h \<noteq> 0 then filter (\<lambda>e. fst e \<noteq> h) (timeouts m) else timeouts m
      | None \<Rightarrow> timeouts m)"

section \<open>Properties of the majority vote\<close>

lemma every_same_nth:
  "every_same history prev = (\<forall>i < length history. history ! i = prev ! i)"
proof -
  have "every_same history prev =
      (\<forall>p \<in> set (zip history [0 ..< length history]). fst p = prev ! snd p)"
    by (simp add: every_same_def list_all_iff case_prod_beta)
  also have "\<dots> = (\<forall>i < length history. history ! i = prev ! i)"
    by (force simp: set_zip)
  finally show ?thesis .
qed

lemma every_same_iff:
  "length history = length prev \<Longrightarrow> every_same history prev = (history = prev)"
  by (simp add: every_same_nth list_eq_iff_nth_eq)

lemma increment_four:
  "increment g [(REST, a), (NEXT, b), (PREV, c), (SELECT, d)] =
     [(REST, a + (if g = REST then 1 else 0)), (NEXT, b + (if g = NEXT then 1 else 0)),
      (PREV, c + (if g = PREV then 1 else 0)), (SELECT, d + (if g = SELECT then 1 else 0))]"
  by (cases g) (simp_all add: increment_def)

lemma fold_increment:
  "fold increment h [(REST, a), (NEXT, b), (PREV, c), (SELECT, d)] =
     [(REST, a + count_list h REST), (NEXT, b + count_list h NEXT),
      (PREV, c + count_list h PREV), (SELECT, d + count_list h SELECT)]"
proof (induction h arbitrary: a b c d)
  case Nil
  show ?case by simp
next
  case (Cons g h)
  show ?case by (cases g) (simp_all add: increment_four Cons.IH)
qed

lemma countOccurrences_eq:
  "countOccurrences h =
     [(REST, count_list h REST), (NEXT, count_list h NEXT),
      (PREV, count_list h PREV), (SELECT, count_list h SELECT)]"
  by (simp add: countOccurrences_def counts_init_def fold_increment)


lemma pickMajority_four:
  "pickMajority [(REST, a), (NEXT, b), (PREV, c), (SELECT, d)] =
     (if d > max (max a b) c then SELECT
      else if c > max a b then PREV
      else if b > a then NEXT
      else REST)"
  by (simp add: pickMajority_def pickStep_def max_def)

lemma pickMajority_max:
  "count_list h g' \<le> count_list h (pickMajority (countOccurrences h))"
  by (cases g') (simp_all add: countOccurrences_eq pickMajority_four max_def)

lemma pickMajority_first:
  assumes "h \<noteq> []"
    and "count_list h g' = count_list h (pickMajority (countOccurrences h))"
  shows "enum_index (pickMajority (countOccurrences h)) \<le> enum_index g'"
  using assms(2)
  by (cases g') (simp_all add: countOccurrences_eq pickMajority_four max_def split: if_splits)

lemma computeMajorityGesture_memo_ok:
  "memo_ok m \<Longrightarrow> memo_ok (snd (computeMajorityGesture m h))"
  by (auto simp: computeMajorityGesture_def memo_ok_def majorityUncached_def Let_def)

lemma computeMajorityGesture_uncached:
  "memo_ok m \<Longrightarrow> fst (computeMajorityGesture m h) = majorityUncached h"
  by (auto simp: computeMajorityGesture_def memo_ok_def majorityUncached_def Let_def
      every_same_iff)

lemma memo_ok_init: "memo_ok memo_init"
  by (simp add: memo_ok_def memo_init_def majorityUncached_def)

lemma memo_ok_fold:
  "memo_ok m \<Longrightarrow> memo_ok (fold (\<lambda>h m. snd (computeMajorityGesture m h)) calls m)"
  by (induction calls arbitrary: m) (simp_all add: computeMajorityGesture_memo_ok)

lemma memo_ok_after: "memo_ok (memo_after calls)"
  by (simp add: memo_after_def memo_ok_fold memo_ok_init)

lemma call_results_uncached:
  "memo_ok m \<Longrightarrow> call_results m calls = map majorityUncached calls"
  by (induction calls arbitrary: m)
    (simp_all add: computeMajorityGesture_uncached computeMajorityGesture_memo_ok)

lemma majorityUncached_by_spec: "majorityUncached history = majority_by_spec history"
  by (simp add: majorityUncached_def majority_by_spec_def countOccurrences_eq pickMajority_four
      max_def)

section \<open>Properties of the smoother\<close>




lemma processPoseResults_history:
  "gestureHistoryRef (snd (processPoseResults f (Some lm) s)) =
     pushed_history (gestureHistoryRef s) (f lm)"
  unfolding processPoseResults_def Let_def pushed_history_def [symmetric]
  by (simp add: setGesture_def split: prod.splits option.splits)

lemma processPoseResults_None: "processPoseResults f None s = (None, s)"
  by (simp add: processPoseResults_def)




lemma processPoseResults_cache_ok:
  "memo_ok (majorityCache s) \<Longrightarrow> memo_ok (majorityCache (snd (processPoseResults f r s)))"
  using computeMajorityGesture_memo_ok [of "majorityCache s"]
  by (auto simp: processPoseResults_def Let_def setGesture_def
      split: option.splits prod.splits dest: sndI)

lemma processPoseResults_length:
  "length (gestureHistoryRef (snd (processPoseResults f r s))) \<le> MAX_HISTORY_LENGTH"
  if "length (gestureHistoryRef s) \<le> MAX_HISTORY_LENGTH"
proof (cases r)
  case None
  then show ?thesis using that by (simp add: processPoseResults_None)
next
  case (Some lm)
  then show ?thesis using that by (simp add: processPoseResults_history pushed_history_def)
qed

lemma processPoseResults_ok: "session_ok s \<Longrightarrow> session_ok (snd (processPoseResults f r s))"
  by (simp add: session_ok_def processPoseResults_cache_ok processPoseResults_length)

lemma handleKeyDown_ok: "session_ok s \<Longrightarrow> session_ok (handleKeyDown g s)"
  by (simp add: session_ok_def handleKeyDown_def setGesture_def)

lemma render_ok: "session_ok s \<Longrightarrow> session_ok (render s)"
  by (simp add: session_ok_def render_def)

lemma syncEffect_ok: "session_ok s \<Longrightarrow> session_ok (syncEffect s)"
  by (simp add: session_ok_def syncEffect_def)

lemma step_ok: "session_ok s \<Longrightarrow> session_ok (step f e s)"
  by (cases e) (simp_all add: processPoseResults_ok handleKeyDown_ok render_ok syncEffect_ok)

lemma session_init_ok: "session_ok session_init"
  by (simp add: session_ok_def session_init_def memo_ok_init)

lemma run_ok: "session_ok s \<Longrightarrow> session_ok (run f events s)"
  unfolding run_def by (induction events arbitrary: s) (simp_all add: step_ok)

lemma reachable_ok: "session_ok (run f events session_init)"
  by (simp add: run_ok session_init_ok)

lemma observe_frame_fst:
  "fst (observe f (PoseResults r # es) s) =
     fst (processPoseResults f r s) # fst (observe f es (snd (processPoseResults f r s)))"
  by (cases "processPoseResults f r s"; cases "observe f es (snd (processPoseResults f r s))") simp

lemma observe_frame_snd:
  "snd (observe f (PoseResults r # es) s) = snd (observe f es (snd (processPoseResults f r s)))"
  by (cases "processPoseResults f r s"; cases "observe f es (snd (processPoseResults f r s))") simp

lemma observe_run: "snd (observe f es s) = run f es s"
proof (induction es arbitrary: s)
  case Nil
  then show ?case by (simp add: run_def)
next
  case (Cons e es)
  then show ?case
    by (cases e) (simp_all add: observe_frame_snd run_def del: observe.simps(2))
qed

lemma pushed_history_length_le:
  "length (pushed_history h g) \<le> Suc (length h)"
  by (simp add: pushed_history_def)

lemma pushed_history_fifo:
  "length h \<le> MAX_HISTORY_LENGTH \<Longrightarrow>
   pushed_history h g = (if length h = MAX_HISTORY_LENGTH then tl h @ [g] else h @ [g])"
  by (cases h) (auto simp: pushed_history_def MAX_HISTORY_LENGTH_def)

lemma pushed_history_length:
  "length h \<le> MAX_HISTORY_LENGTH \<Longrightarrow>
   length (pushed_history h g) = min MAX_HISTORY_LENGTH (Suc (length h))"
  by (auto simp: pushed_history_fifo MAX_HISTORY_LENGTH_def)



lemma observe_length: "length (fst (observe f es s)) = length (frames es)"
proof (induction es arbitrary: s)
  case Nil
  then show ?case by simp
next
  case (Cons e es)
  then show ?case
    by (cases e) (simp_all add: observe_frame_fst del: observe.simps(2))
qed

lemma processPoseResults_short:
  "length (gestureHistoryRef (snd (processPoseResults f r s))) < MIN_HISTORY_LENGTH \<Longrightarrow>
   fst (processPoseResults f r s) = None
   \<and> currentGesture (snd (processPoseResults f r s)) = currentGesture s"
  by (auto simp: processPoseResults_def Let_def setGesture_def split: option.splits prod.splits)

lemma processPoseResults_history_grows:
  "length (gestureHistoryRef (snd (processPoseResults f r s))) \<le> Suc (length (gestureHistoryRef s))"
proof (cases r)
  case None
  then show ?thesis by (simp add: processPoseResults_None)
next
  case (Some lm)
  then show ?thesis by (simp add: processPoseResults_history pushed_history_length_le)
qed

lemma observe_short:
  "length (gestureHistoryRef s) + length (frames es) < MIN_HISTORY_LENGTH \<Longrightarrow>
   list_all keyless es \<Longrightarrow>
   fst (observe f es s) = replicate (length (frames es)) None
   \<and> currentGesture (snd (observe f es s)) = currentGesture s"
proof (induction es arbitrary: s)
  case Nil
  then show ?case by simp
next
  case (Cons e es)
  show ?case
  proof (cases e)
    case (PoseResults r)
    let ?s' = "snd (processPoseResults f r s)"
    have len: "length (gestureHistoryRef ?s') \<le> Suc (length (gestureHistoryRef s))"
      by (rule processPoseResults_history_grows)
    then have "length (gestureHistoryRef ?s') < MIN_HISTORY_LENGTH"
      using Cons.prems(1) PoseResults by simp
    then have first: "fst (processPoseResults f r s) = None \<and> currentGesture ?s' = currentGesture s"
      by (rule processPoseResults_short)
    have "length (gestureHistoryRef ?s') + length (frames es) < MIN_HISTORY_LENGTH"
      using len Cons.prems(1) PoseResults by simp
    moreover have "list_all keyless es" using Cons.prems(2) by simp
    ultimately have rest: "fst (observe f es ?s') = replicate (length (frames es)) None
        \<and> currentGesture (snd (observe f es ?s')) = currentGesture ?s'"
      by (rule Cons.IH)
    show ?thesis
      using first rest unfolding PoseResults
      by (simp add: observe_frame_fst observe_frame_snd del: observe.simps(2))
  next
    case (KeyDown g)
    then show ?thesis using Cons.prems(2) by simp
  next
    case Render
    have "length (gestureHistoryRef (render s)) + length (frames es) < MIN_HISTORY_LENGTH"
      using Cons.prems(1) Render by (simp add: render_def)
    moreover have "list_all keyless es" using Cons.prems(2) by simp
    ultimately have "fst (observe f es (render s)) = replicate (length (frames es)) None
        \<and> currentGesture (snd (observe f es (render s))) = currentGesture (render s)"
      by (rule Cons.IH)
    then show ?thesis unfolding Render by (simp add: render_def)
  next
    case Effect
    have "length (gestureHistoryRef (syncEffect s)) + length (frames es) < MIN_HISTORY_LENGTH"
      using Cons.prems(1) Effect by (simp add: syncEffect_def)
    moreover have "list_all keyless es" using Cons.prems(2) by simp
    ultimately have "fst (observe f es (syncEffect s)) = replicate (length (frames es)) None
        \<and> currentGesture (snd (observe f es (syncEffect s))) = currentGesture (syncEffect s)"
      by (rule Cons.IH)
    then show ?thesis unfolding Effect by (simp add: syncEffect_def)
  qed
qed

lemma observe_full:
  "length (gestureHistoryRef s) \<le> MAX_HISTORY_LENGTH \<Longrightarrow>
   list_all keyless es \<Longrightarrow>
   length (gestureHistoryRef (snd (observe f es s))) =
     min MAX_HISTORY_LENGTH (length (gestureHistoryRef s) + length (landmarks es))"
proof (induction es arbitrary: s)
  case Nil
  then show ?case by simp
next
  case (Cons e es)
  have keys: "list_all keyless es" using Cons.prems(2) by simp
  show ?case
  proof (cases e)
    case (PoseResults r)
    show ?thesis
    proof (cases r)
      case None
      have "length (gestureHistoryRef (snd (observe f es s))) =
          min MAX_HISTORY_LENGTH (length (gestureHistoryRef s) + length (landmarks es))"
        using Cons.prems(1) keys by (rule Cons.IH)
      then show ?thesis
        unfolding PoseResults None
        by (simp add: observe_frame_snd processPoseResults_None del: observe.simps(2))
    next
      case (Some lm)
      let ?s' = "snd (processPoseResults f (Some lm) s)"
      have l: "length (gestureHistoryRef ?s') = min MAX_HISTORY_LENGTH (Suc (length (gestureHistoryRef s)))"
        using Cons.prems(1) by (simp add: processPoseResults_history pushed_history_length)
      then have "length (gestureHistoryRef ?s') \<le> MAX_HISTORY_LENGTH" by simp
      then have "length (gestureHistoryRef (snd (observe f es ?s'))) =
         min MAX_HISTORY_LENGTH (length (gestureHistoryRef ?s') + length (landmarks es))"
        using keys by (rule Cons.IH)
      then show ?thesis
        using l unfolding PoseResults Some
        by (simp add: observe_frame_snd del: observe.simps(2))
    qed
  next
    case (KeyDown g)
    then show ?thesis using Cons.prems(2) by simp
  next
    case Render
    have "length (gestureHistoryRef (render s)) \<le> MAX_HISTORY_LENGTH"
      using Cons.prems(1) by (simp add: render_def)
    then have "length (gestureHistoryRef (snd (observe f es (render s)))) =
        min MAX_HISTORY_LENGTH (length (gestureHistoryRef (render s)) + length (landmarks es))"
      using keys by (rule Cons.IH)
    then show ?thesis unfolding Render by (simp add: render_def)
  next
    case Effect
    have "length (gestureHistoryRef (syncEffect s)) \<le> MAX_HISTORY_LENGTH"
      using Cons.prems(1) by (simp add: syncEffect_def)
    then have "length (gestureHistoryRef (snd (observe f es (syncEffect s)))) =
        min MAX_HISTORY_LENGTH (length (gestureHistoryRef (syncEffect s)) + length (landmarks es))"
      using keys by (rule Cons.IH)
    then show ?thesis unfolding Effect by (simp add: syncEffect_def)
  qed
qed




text \<open>
  Claim C1. For a non-empty history, \<open>computeMajorityGesture\<close>, called on the cache that
  any sequence of earlier calls has left, returns a gesture whose number of occurrences
  in the history is the highest, and among the gestures with that number it returns the
  first in the order REST, NEXT, PREV, SELECT of the \<open>counts\<close> literal.
\<close>

theorem C1_majority_highest_count_first_enumerated:
  assumes "history \<noteq> []"
  shows "\<exists>g. fst (computeMajorityGesture (memo_after calls) history) = Some g
     \<and> (\<forall>g'. count_list history g' \<le> count_list history g)
     \<and> (\<forall>g'. count_list history g' = count_list history g \<longrightarrow> enum_index g \<le> enum_index g')"
proof -
  let ?g = "pickMajority (countOccurrences history)"
  have "fst (computeMajorityGesture (memo_after calls) history) = Some ?g"
    using assms by (simp add: computeMajorityGesture_uncached memo_ok_after majorityUncached_def)
  moreover have "\<forall>g'. count_list history g' \<le> count_list history ?g"
    by (simp add: pickMajority_max)
  moreover have "\<forall>g'. count_list history g' = count_list history ?g \<longrightarrow>
      enum_index ?g \<le> enum_index g'"
    using assms by (simp add: pickMajority_first)
  ultimately show ?thesis by blast
qed

theorem C1_witness:
  "[SELECT, PREV, PREV, SELECT] \<noteq> []
   \<and> fst (computeMajorityGesture (memo_after [[NEXT, NEXT], [SELECT]])
        [SELECT, PREV, PREV, SELECT]) = Some PREV"
proof -
  have ne: "[SELECT, PREV, PREV, SELECT] \<noteq> []" by simp
  obtain g where g: "fst (computeMajorityGesture (memo_after [[NEXT, NEXT], [SELECT]])
        [SELECT, PREV, PREV, SELECT]) = Some g"
    and first: "\<forall>g'. count_list [SELECT, PREV, PREV, SELECT] g' = count_list [SELECT, PREV, PREV, SELECT] g
        \<longrightarrow> enum_index g \<le> enum_index g'"
    and most: "\<forall>g'. count_list [SELECT, PREV, PREV, SELECT] g' \<le> count_list [SELECT, PREV, PREV, SELECT] g"
    using C1_majority_highest_count_first_enumerated [OF ne, of "[[NEXT, NEXT], [SELECT]]"]
    by blast
  have "g = PREV"
    using first [rule_format, of PREV] most [rule_format, of PREV]
    by (cases g) simp_all
  then show ?thesis using g by simp
qed

text \<open>
  Claim C9. The memoized \<open>computeMajorityGesture\<close> gives, at every call of every sequence
  of calls that starts from the initial closure, the result of the uncached counting and
  tie-break on that call's history, which is the vote as the design words it.
\<close>

theorem C9_memoized_equals_uncached:
  "call_results memo_init calls = map majorityUncached calls
   \<and> fst (computeMajorityGesture (memo_after calls) history) = majorityUncached history
   \<and> majorityUncached history = majority_by_spec history"
proof (intro conjI)
  show "call_results memo_init calls = map majorityUncached calls"
    using memo_ok_init by (rule call_results_uncached)
  show "fst (computeMajorityGesture (memo_after calls) history) = majorityUncached history"
    using memo_ok_after by (rule computeMajorityGesture_uncached)
  show "majorityUncached history = majority_by_spec history"
    by (rule majorityUncached_by_spec)
qed

theorem C9_witness:
  "call_results memo_init [[NEXT, NEXT, REST], [NEXT, NEXT, REST], [], [PREV], [PREV]]
     = [Some NEXT, Some NEXT, None, Some PREV, Some PREV]"
proof -
  have "map majorityUncached [[NEXT, NEXT, REST], [NEXT, NEXT, REST], [], [PREV], [PREV]]
     = [Some NEXT, Some NEXT, None, Some PREV, Some PREV]"
    by (simp add: majorityUncached_def countOccurrences_eq pickMajority_four)
  then show ?thesis
    using C9_memoized_equals_uncached
      [of "[[NEXT, NEXT, REST], [NEXT, NEXT, REST], [], [PREV], [PREV]]" "[]"]
    by simp
qed

text \<open>
  Claim C5. A frame that leaves the history shorter than \<open>MIN_HISTORY_LENGTH\<close> calls
  \<open>setGesture\<close> not at all and leaves the committed gesture as it was; so do the first
  three frames processed after the history was empty, whenever the component renders and
  the effect runs between them.
\<close>

theorem C5_no_emission_below_min_history:
  "(length (gestureHistoryRef (snd (processPoseResults f r s))) < MIN_HISTORY_LENGTH \<longrightarrow>
      fst (processPoseResults f r s) = None
      \<and> currentGesture (snd (processPoseResults f r s)) = currentGesture s)
   \<and> (gestureHistoryRef s = [] \<and> length (frames es) < MIN_HISTORY_LENGTH \<and> list_all keyless es \<longrightarrow>
      fst (observe f es s) = replicate (length (frames es)) None
      \<and> currentGesture (snd (observe f es s)) = currentGesture s)"
proof (rule conjI; rule impI)
  assume "length (gestureHistoryRef (snd (processPoseResults f r s))) < MIN_HISTORY_LENGTH"
  then show "fst (processPoseResults f r s) = None
      \<and> currentGesture (snd (processPoseResults f r s)) = currentGesture s"
    by (rule processPoseResults_short)
next
  assume h: "gestureHistoryRef s = [] \<and> length (frames es) < MIN_HISTORY_LENGTH \<and> list_all keyless es"
  then have "length (gestureHistoryRef s) + length (frames es) < MIN_HISTORY_LENGTH" by simp
  moreover have "list_all keyless es" using h by simp
  ultimately show "fst (observe f es s) = replicate (length (frames es)) None
      \<and> currentGesture (snd (observe f es s)) = currentGesture s"
    by (rule observe_short)
qed

theorem C5_witness:
  "gestureHistoryRef session_init = []
   \<and> length (frames [PoseResults (Some NEXT), Render, Effect, PoseResults (Some NEXT), PoseResults (Some NEXT)])
       < MIN_HISTORY_LENGTH
   \<and> list_all keyless [PoseResults (Some NEXT), Render, Effect, PoseResults (Some NEXT), PoseResults (Some NEXT)]
   \<and> fst (observe id [PoseResults (Some NEXT), Render, Effect, PoseResults (Some NEXT), PoseResults (Some NEXT)]
        session_init) = [None, None, None]
   \<and> currentGesture (snd (observe id
        [PoseResults (Some NEXT), Render, Effect, PoseResults (Some NEXT), PoseResults (Some NEXT)]
        session_init)) = REST"
  using C5_no_emission_below_min_history
    [of id None session_init
      "[PoseResults (Some NEXT), Render, Effect, PoseResults (Some NEXT), PoseResults (Some NEXT)]"]
  by (simp add: session_init_def MIN_HISTORY_LENGTH_def del: observe.simps)

text \<open>
  Claim C6. In every session reached from the initial one by frames, key presses, renders
  and runs of the effect, the history has at most \<open>MAX_HISTORY_LENGTH\<close> entries; a frame
  with landmarks appends its gesture and, when the history was full, drops exactly the
  oldest entry; and after \<open>MAX_HISTORY_LENGTH\<close> or more such frames, whenever the component
  renders and the effect runs between them, the history has exactly \<open>MAX_HISTORY_LENGTH\<close>
  entries.
\<close>

theorem C6_history_bounded_fifo:
  "length (gestureHistoryRef (run f events session_init)) \<le> MAX_HISTORY_LENGTH
   \<and> (length (gestureHistoryRef s) \<le> MAX_HISTORY_LENGTH \<longrightarrow>
        gestureHistoryRef (snd (processPoseResults f (Some lm) s)) =
          (if length (gestureHistoryRef s) = MAX_HISTORY_LENGTH
           then tl (gestureHistoryRef s) @ [f lm] else gestureHistoryRef s @ [f lm]))
   \<and> (length (gestureHistoryRef s) \<le> MAX_HISTORY_LENGTH \<and> list_all keyless es
        \<and> MAX_HISTORY_LENGTH \<le> length (landmarks es) \<longrightarrow>
        length (gestureHistoryRef (snd (observe f es s))) = MAX_HISTORY_LENGTH)"
proof -
  have "length (gestureHistoryRef (run f events session_init)) \<le> MAX_HISTORY_LENGTH"
    using reachable_ok [of f events] by (simp add: session_ok_def)
  moreover have "length (gestureHistoryRef s) \<le> MAX_HISTORY_LENGTH \<longrightarrow>
        gestureHistoryRef (snd (processPoseResults f (Some lm) s)) =
          (if length (gestureHistoryRef s) = MAX_HISTORY_LENGTH
           then tl (gestureHistoryRef s) @ [f lm] else gestureHistoryRef s @ [f lm])"
    by (simp add: processPoseResults_history pushed_history_fifo)
  moreover have "length (gestureHistoryRef s) \<le> MAX_HISTORY_LENGTH \<and> list_all keyless es
        \<and> MAX_HISTORY_LENGTH \<le> length (landmarks es) \<longrightarrow>
        length (gestureHistoryRef (snd (observe f es s))) = MAX_HISTORY_LENGTH"
    by (simp add: observe_full)
  ultimately show ?thesis by blast
qed

theorem C6_witness:
  "length (gestureHistoryRef session_init) \<le> MAX_HISTORY_LENGTH
   \<and> list_all keyless
        [PoseResults (Some REST), PoseResults (Some NEXT), Render, Effect, PoseResults (Some NEXT),
         PoseResults (Some PREV), PoseResults None, PoseResults (Some NEXT), PoseResults (Some NEXT),
         Render, Effect, PoseResults (Some SELECT), PoseResults (Some REST)]
   \<and> MAX_HISTORY_LENGTH \<le> length (landmarks
        [PoseResults (Some REST), PoseResults (Some NEXT), Render, Effect, PoseResults (Some NEXT),
         PoseResults (Some PREV), PoseResults None, PoseResults (Some NEXT), PoseResults (Some NEXT),
         Render, Effect, PoseResults (Some SELECT), PoseResults (Some REST)])
   \<and> length (gestureHistoryRef (snd (observe id
        [PoseResults (Some REST), PoseResults (Some NEXT), Render, Effect, PoseResults (Some NEXT),
         PoseResults (Some PREV), PoseResults None, PoseResults (Some NEXT), PoseResults (Some NEXT),
         Render, Effect, PoseResults (Some SELECT), PoseResults (Some REST)] session_init))) = MAX_HISTORY_LENGTH
   \<and> gestureHistoryRef (snd (processPoseResults id (Some REST)
        (session_init\<lparr>gestureHistoryRef := [REST, NEXT, NEXT, PREV, NEXT, NEXT, SELECT]\<rparr>)))
       = [NEXT, NEXT, PREV, NEXT, NEXT, SELECT, REST]"
  using C6_history_bounded_fifo
    [of id "[]" "session_init\<lparr>gestureHistoryRef := [REST, NEXT, NEXT, PREV, NEXT, NEXT, SELECT]\<rparr>" REST]
    C6_history_bounded_fifo
    [of id "[]" session_init REST
      "[PoseResults (Some REST), PoseResults (Some NEXT), Render, Effect, PoseResults (Some NEXT),
         PoseResults (Some PREV), PoseResults None, PoseResults (Some NEXT), PoseResults (Some NEXT),
         Render, Effect, PoseResults (Some SELECT), PoseResults (Some REST)]"]
  by (simp add: session_init_def MAX_HISTORY_LENGTH_def del: observe.simps)




section \<open>Properties of the frame dispatch\<close>

lemma page_init_ok: "page_ok (page_init a)"
  by (simp add: page_ok_def page_init_def)

lemma onResults_ok: "page_ok w \<Longrightarrow> page_ok (onResults process r now w)"
  by (auto simp: page_ok_def onResults_def requestAnimationFrame_def Let_def
      split: option.splits)

lemma rafCallback_fields:
  "rafCallbacks (rafCallback process now w) = rafCallbacks w"
  "globalRafId (rafCallback process now w) = None"
  by (simp_all add: rafCallback_def Let_def split: option.splits)

lemma animationFrame_ok: "page_ok w \<Longrightarrow> page_ok (animationFrame process now w)"
  by (auto simp: page_ok_def animationFrame_def rafCallback_fields split: option.splits)

lemma cleanup_ok: "page_ok w \<Longrightarrow> page_ok (cleanup w)"
  by (auto simp: page_ok_def cleanup_def cancelAnimationFrame_def Let_def split: option.splits)

lemma page_step_ok: "page_ok w \<Longrightarrow> page_ok (page_step process e w)"
  by (cases e) (simp_all add: onResults_ok animationFrame_ok cleanup_ok)

lemma page_run_ok: "page_ok w \<Longrightarrow> page_ok (page_run process events w)"
  unfolding page_run_def by (induction events arbitrary: w) (simp_all add: page_step_ok)

lemma page_reachable_ok: "page_ok (page_run process events (page_init a))"
  by (simp add: page_run_ok page_init_ok)

lemma page_ok_length: "page_ok w \<Longrightarrow> length (rafCallbacks w) \<le> 1"
  by (auto simp: page_ok_def split: option.splits)

lemma onResults_late:
  assumes "page_ok w" and "now - globalLastFrameTime w < FRAME_INTERVAL"
  shows "globalPendingResults (onResults process r now w) = Some r"
    and "app (onResults process r now w) = app w"
    and "globalLastFrameTime (onResults process r now w) = globalLastFrameTime w"
    and "length (rafCallbacks (onResults process r now w)) = 1"
    and "rafCallbacks w \<noteq> [] \<Longrightarrow> rafCallbacks (onResults process r now w) = rafCallbacks w"
  using assms
  by (auto simp: page_ok_def onResults_def requestAnimationFrame_def Let_def
      split: option.splits)

lemma onResults_due:
  assumes "FRAME_INTERVAL \<le> now - globalLastFrameTime w"
  shows "onResults process r now w =
     w\<lparr>app := process r (app w), globalLastFrameTime := now, globalPendingResults := None\<rparr>"
  using assms by (simp add: onResults_def Let_def)

lemma animationFrame_pending:
  assumes "page_ok w" and "globalPendingResults w = Some r" and "rafCallbacks w \<noteq> []"
  shows "animationFrame process now w =
     w\<lparr>app := process r (app w), globalLastFrameTime := now, globalPendingResults := None,
       globalRafId := None, rafCallbacks := []\<rparr>"
  using assms
  by (auto simp: page_ok_def animationFrame_def rafCallback_def Let_def split: option.splits)

lemma animationFrame_idle:
  assumes "rafCallbacks w = []"
  shows "animationFrame process now w = w"
  using assms by (simp add: animationFrame_def)

lemma animationFrame_no_pending:
  assumes "page_ok w" and "globalPendingResults w = None"
  shows "animationFrame process now w = w\<lparr>globalRafId := None, rafCallbacks := []\<rparr>"
  using assms
  by (auto simp: page_ok_def animationFrame_def rafCallback_def Let_def split: option.splits)

lemma two_results_first_late:
  assumes ok: "page_ok w" and t1: "t1 - globalLastFrameTime w < FRAME_INTERVAL"
  shows "app (onResults process r2 t2 (onResults process r1 t1 w))
           = (if t2 - globalLastFrameTime w < FRAME_INTERVAL then app w else process r2 (app w))"
    and "globalPendingResults (onResults process r2 t2 (onResults process r1 t1 w))
           = (if t2 - globalLastFrameTime w < FRAME_INTERVAL then Some r2 else None)"
    and "length (rafCallbacks (onResults process r2 t2 (onResults process r1 t1 w))) = 1"
    and "app (animationFrame process t3 (onResults process r2 t2 (onResults process r1 t1 w)))
           = process r2 (app w)"
    and "globalPendingResults
           (animationFrame process t3 (onResults process r2 t2 (onResults process r1 t1 w))) = None"
    and "rafCallbacks
           (animationFrame process t3 (onResults process r2 t2 (onResults process r1 t1 w))) = []"
proof -
  let ?w1 = "onResults process r1 t1 w"
  let ?w2 = "onResults process r2 t2 ?w1"
  have ok1: "page_ok ?w1" using ok by (rule onResults_ok)
  have ok2: "page_ok ?w2" using ok1 by (rule onResults_ok)
  have l1: "globalLastFrameTime ?w1 = globalLastFrameTime w" and a1: "app ?w1 = app w"
    and n1: "length (rafCallbacks ?w1) = 1"
    using onResults_late [OF ok t1, of process r1] by simp_all
  have all: "app ?w2 = (if t2 - globalLastFrameTime w < FRAME_INTERVAL then app w else process r2 (app w))
      \<and> globalPendingResults ?w2
           = (if t2 - globalLastFrameTime w < FRAME_INTERVAL then Some r2 else None)
      \<and> length (rafCallbacks ?w2) = 1
      \<and> app (animationFrame process t3 ?w2) = process r2 (app w)
      \<and> globalPendingResults (animationFrame process t3 ?w2) = None
      \<and> rafCallbacks (animationFrame process t3 ?w2) = []"
  proof (cases "t2 - globalLastFrameTime w < FRAME_INTERVAL")
    case True
    then have t2': "t2 - globalLastFrameTime ?w1 < FRAME_INTERVAL" using l1 by simp
    have p2: "globalPendingResults ?w2 = Some r2" and a2: "app ?w2 = app ?w1"
      and n2: "length (rafCallbacks ?w2) = 1"
      using onResults_late [OF ok1 t2', of process r2] by simp_all
    have ne: "rafCallbacks ?w2 \<noteq> []" using n2 by auto
    show ?thesis
      using True p2 a2 a1 n2 by (simp add: animationFrame_pending [OF ok2 p2 ne])
  next
    case False
    then have t2': "FRAME_INTERVAL \<le> t2 - globalLastFrameTime ?w1" using l1 by simp
    have w2: "?w2 = ?w1\<lparr>app := process r2 (app ?w1), globalLastFrameTime := t2,
        globalPendingResults := None\<rparr>"
      using t2' by (rule onResults_due)
    have p2: "globalPendingResults ?w2 = None" and a2: "app ?w2 = process r2 (app w)"
      and n2: "length (rafCallbacks ?w2) = 1"
      using a1 n1 by (simp_all add: w2)
    show ?thesis
      using False p2 a2 n2 by (simp add: animationFrame_no_pending [OF ok2 p2])
  qed
  show "app ?w2 = (if t2 - globalLastFrameTime w < FRAME_INTERVAL then app w else process r2 (app w))"
    and "globalPendingResults ?w2
           = (if t2 - globalLastFrameTime w < FRAME_INTERVAL then Some r2 else None)"
    and "length (rafCallbacks ?w2) = 1"
    and "app (animationFrame process t3 ?w2) = process r2 (app w)"
    and "globalPendingResults (animationFrame process t3 ?w2) = None"
    and "rafCallbacks (animationFrame process t3 ?w2) = []"
    using all by simp_all
qed

lemma two_results_first_due:
  assumes ok: "page_ok w" and t1: "FRAME_INTERVAL \<le> t1 - globalLastFrameTime w"
    and t2: "t2 - t1 < FRAME_INTERVAL"
  shows "app (onResults process r1 t1 w) = process r1 (app w)"
    and "app (onResults process r2 t2 (onResults process r1 t1 w)) = process r1 (app w)"
    and "globalPendingResults (onResults process r2 t2 (onResults process r1 t1 w)) = Some r2"
    and "app (animationFrame process t3 (onResults process r2 t2 (onResults process r1 t1 w)))
           = process r2 (process r1 (app w))"
proof -
  let ?w1 = "onResults process r1 t1 w"
  let ?w2 = "onResults process r2 t2 ?w1"
  have ok1: "page_ok ?w1" using ok by (rule onResults_ok)
  have ok2: "page_ok ?w2" using ok1 by (rule onResults_ok)
  have w1: "?w1 = w\<lparr>app := process r1 (app w), globalLastFrameTime := t1,
      globalPendingResults := None\<rparr>"
    using t1 by (rule onResults_due)
  have l1: "globalLastFrameTime ?w1 = t1" and a1: "app ?w1 = process r1 (app w)"
    by (simp_all add: w1)
  have t2': "t2 - globalLastFrameTime ?w1 < FRAME_INTERVAL" using t2 l1 by simp
  have p2: "globalPendingResults ?w2 = Some r2" and a2: "app ?w2 = app ?w1"
    and n2: "length (rafCallbacks ?w2) = 1"
    using onResults_late [OF ok1 t2', of process r2] by simp_all
  have ne: "rafCallbacks ?w2 \<noteq> []" using n2 by auto
  show "app ?w1 = process r1 (app w)" by (rule a1)
  show "app ?w2 = process r1 (app w)" using a2 a1 by simp
  show "globalPendingResults ?w2 = Some r2" by (rule p2)
  show "app (animationFrame process t3 ?w2) = process r2 (process r1 (app w))"
    using a2 a1 by (simp add: animationFrame_pending [OF ok2 p2 ne])
qed

text \<open>
  Claim C2. In every page state reached from the initial one the browser holds at most
  one requested callback that has not run. There, a result that arrives less than
  \<open>FRAME_INTERVAL\<close> after the last processed frame is not processed: it replaces the
  pending result, and it requests a callback only if none is outstanding. The callback,
  when it runs on a pending result, processes that result and frees the slot.

  Of two results with no animation frame between them, when the first arrives less than
  \<open>FRAME_INTERVAL\<close> after the last processed frame, exactly one is processed up to and
  including the next animation frame, and it is the second: by that frame when the
  second also arrives less than \<open>FRAME_INTERVAL\<close> after the last processed frame, and at
  once otherwise (the callback then finds nothing pending). When the first arrives
  \<open>FRAME_INTERVAL\<close> or more after the last processed frame, it is processed at once, and
  the second, arriving less than \<open>FRAME_INTERVAL\<close> after it, is processed by the next
  animation frame: both are processed, the first before that frame.
\<close>

theorem C2_one_deferred_unit_most_recent_wins:
  assumes "w = page_run process events (page_init a)"
  shows "length (rafCallbacks w) \<le> 1
     \<and> (now - globalLastFrameTime w < FRAME_INTERVAL \<longrightarrow>
          globalPendingResults (onResults process r now w) = Some r
          \<and> app (onResults process r now w) = app w
          \<and> length (rafCallbacks (onResults process r now w)) = 1
          \<and> (rafCallbacks w \<noteq> [] \<longrightarrow> rafCallbacks (onResults process r now w) = rafCallbacks w))
     \<and> (globalPendingResults w = Some r \<and> rafCallbacks w \<noteq> [] \<longrightarrow>
          app (animationFrame process now w) = process r (app w)
          \<and> globalPendingResults (animationFrame process now w) = None
          \<and> globalRafId (animationFrame process now w) = None
          \<and> rafCallbacks (animationFrame process now w) = [])
     \<and> (t1 - globalLastFrameTime w < FRAME_INTERVAL \<longrightarrow>
          app (onResults process r2 t2 (onResults process r1 t1 w))
              = (if t2 - globalLastFrameTime w < FRAME_INTERVAL then app w else process r2 (app w))
          \<and> globalPendingResults (onResults process r2 t2 (onResults process r1 t1 w))
              = (if t2 - globalLastFrameTime w < FRAME_INTERVAL then Some r2 else None)
          \<and> length (rafCallbacks (onResults process r2 t2 (onResults process r1 t1 w))) = 1
          \<and> app (animationFrame process t3 (onResults process r2 t2 (onResults process r1 t1 w)))
              = process r2 (app w)
          \<and> globalPendingResults
               (animationFrame process t3 (onResults process r2 t2 (onResults process r1 t1 w))) = None
          \<and> rafCallbacks (animationFrame process t3 (onResults process r2 t2 (onResults process r1 t1 w)))
              = [])
     \<and> (FRAME_INTERVAL \<le> t1 - globalLastFrameTime w \<and> t2 - t1 < FRAME_INTERVAL \<longrightarrow>
          app (onResults process r1 t1 w) = process r1 (app w)
          \<and> app (onResults process r2 t2 (onResults process r1 t1 w)) = process r1 (app w)
          \<and> globalPendingResults (onResults process r2 t2 (onResults process r1 t1 w)) = Some r2
          \<and> app (animationFrame process t3 (onResults process r2 t2 (onResults process r1 t1 w)))
              = process r2 (process r1 (app w)))"
proof -
  have ok: "page_ok w" using assms by (simp add: page_reachable_ok)
  have one: "length (rafCallbacks w) \<le> 1" using ok by (rule page_ok_length)
  have late: "now - globalLastFrameTime w < FRAME_INTERVAL \<longrightarrow>
          globalPendingResults (onResults process r now w) = Some r
          \<and> app (onResults process r now w) = app w
          \<and> length (rafCallbacks (onResults process r now w)) = 1
          \<and> (rafCallbacks w \<noteq> [] \<longrightarrow> rafCallbacks (onResults process r now w) = rafCallbacks w)"
    using onResults_late [OF ok, of now process r] by simp
  have deferred: "globalPendingResults w = Some r \<and> rafCallbacks w \<noteq> [] \<longrightarrow>
          app (animationFrame process now w) = process r (app w)
          \<and> globalPendingResults (animationFrame process now w) = None
          \<and> globalRafId (animationFrame process now w) = None
          \<and> rafCallbacks (animationFrame process now w) = []"
    using animationFrame_pending [OF ok, of r process now] by simp
  have first_late: "t1 - globalLastFrameTime w < FRAME_INTERVAL \<longrightarrow>
          app (onResults process r2 t2 (onResults process r1 t1 w))
              = (if t2 - globalLastFrameTime w < FRAME_INTERVAL then app w else process r2 (app w))
          \<and> globalPendingResults (onResults process r2 t2 (onResults process r1 t1 w))
              = (if t2 - globalLastFrameTime w < FRAME_INTERVAL then Some r2 else None)
          \<and> length (rafCallbacks (onResults process r2 t2 (onResults process r1 t1 w))) = 1
          \<and> app (animationFrame process t3 (onResults process r2 t2 (onResults process r1 t1 w)))
              = process r2 (app w)
          \<and> globalPendingResults
               (animationFrame process t3 (onResults process r2 t2 (onResults process r1 t1 w))) = None
          \<and> rafCallbacks (animationFrame process t3 (onResults process r2 t2 (onResults process r1 t1 w)))
              = []"
    by (simp add: two_results_first_late [OF ok])
  have first_due: "FRAME_INTERVAL \<le> t1 - globalLastFrameTime w \<and> t2 - t1 < FRAME_INTERVAL \<longrightarrow>
          app (onResults process r1 t1 w) = process r1 (app w)
          \<and> app (onResults process r2 t2 (onResults process r1 t1 w)) = process r1 (app w)
          \<and> globalPendingResults (onResults process r2 t2 (onResults process r1 t1 w)) = Some r2
          \<and> app (animationFrame process t3 (onResults process r2 t2 (onResults process r1 t1 w)))
              = process r2 (process r1 (app w))"
  proof (rule impI)
    assume h: "FRAME_INTERVAL \<le> t1 - globalLastFrameTime w \<and> t2 - t1 < FRAME_INTERVAL"
    show "app (onResults process r1 t1 w) = process r1 (app w)
          \<and> app (onResults process r2 t2 (onResults process r1 t1 w)) = process r1 (app w)
          \<and> globalPendingResults (onResults process r2 t2 (onResults process r1 t1 w)) = Some r2
          \<and> app (animationFrame process t3 (onResults process r2 t2 (onResults process r1 t1 w)))
              = process r2 (process r1 (app w))"
      using two_results_first_due [OF ok conjunct1 [OF h] conjunct2 [OF h]] by simp
  qed
  show ?thesis using one late deferred first_late first_due by blast
qed

theorem C2_witness:
  "(110 :: real) - globalLastFrameTime (page_run (\<lambda>r log. log @ [r]) [Results ''a'' 100] (page_init []))
      < FRAME_INTERVAL
   \<and> app (onResults (\<lambda>r log. log @ [r]) ''c'' 120
        (onResults (\<lambda>r log. log @ [r]) ''b'' 110
          (page_run (\<lambda>r log. log @ [r]) [Results ''a'' 100] (page_init [])))) = [''a'']
   \<and> app (animationFrame (\<lambda>r log. log @ [r]) 125
        (onResults (\<lambda>r log. log @ [r]) ''c'' 120
          (onResults (\<lambda>r log. log @ [r]) ''b'' 110
            (page_run (\<lambda>r log. log @ [r]) [Results ''a'' 100] (page_init []))))) = [''a'', ''c'']
   \<and> app (onResults (\<lambda>r log. log @ [r]) ''c'' 140
        (onResults (\<lambda>r log. log @ [r]) ''b'' 110
          (page_run (\<lambda>r log. log @ [r]) [Results ''a'' 100] (page_init [])))) = [''a'', ''c'']
   \<and> app (animationFrame (\<lambda>r log. log @ [r]) 145
        (onResults (\<lambda>r log. log @ [r]) ''c'' 140
          (onResults (\<lambda>r log. log @ [r]) ''b'' 110
            (page_run (\<lambda>r log. log @ [r]) [Results ''a'' 100] (page_init []))))) = [''a'', ''c'']
   \<and> globalPendingResults
        (page_run (\<lambda>r log. log @ [r]) [Results ''a'' 100, Results ''b'' 110] (page_init [])) = Some ''b''
   \<and> rafCallbacks
        (page_run (\<lambda>r log. log @ [r]) [Results ''a'' 100, Results ''b'' 110] (page_init [])) \<noteq> []
   \<and> rafCallbacks (onResults (\<lambda>r log. log @ [r]) ''c'' 120
        (page_run (\<lambda>r log. log @ [r]) [Results ''a'' 100, Results ''b'' 110] (page_init []))) = [1]
   \<and> app (animationFrame (\<lambda>r log. log @ [r]) 125
        (page_run (\<lambda>r log. log @ [r]) [Results ''a'' 100, Results ''b'' 110] (page_init [])))
       = [''a'', ''b'']
   \<and> FRAME_INTERVAL
        \<le> 100 - globalLastFrameTime
            (page_run (\<lambda>r log. log @ [r]) [] (page_init ([] :: string list)))
   \<and> (110 :: real) - 100 < FRAME_INTERVAL
   \<and> app (onResults (\<lambda>r log. log @ [r]) ''b'' 110
        (onResults (\<lambda>r log. log @ [r]) ''a'' 100
          (page_run (\<lambda>r log. log @ [r]) [] (page_init [])))) = [''a'']
   \<and> app (animationFrame (\<lambda>r log. log @ [r]) 115
        (onResults (\<lambda>r log. log @ [r]) ''b'' 110
          (onResults (\<lambda>r log. log @ [r]) ''a'' 100
            (page_run (\<lambda>r log. log @ [r]) [] (page_init []))))) = [''a'', ''b'']"
proof -
  let ?p = "\<lambda>r log. log @ [r :: string]"
  let ?u = "page_run ?p [] (page_init [])"
  let ?w = "page_run ?p [Results ''a'' 100] (page_init [])"
  let ?v = "page_run ?p [Results ''a'' 100, Results ''b'' 110] (page_init [])"
  have u: "?u = \<lparr>globalRafId = None, globalPendingResults = None, globalLastFrameTime = 0,
      rafCallbacks = [], nextRafHandle = 1, app = []\<rparr>"
    by (simp add: page_run_def page_init_def)
  have w: "?w = \<lparr>globalRafId = None, globalPendingResults = None, globalLastFrameTime = 100,
      rafCallbacks = [], nextRafHandle = 1, app = [''a'']\<rparr>"
    by (simp add: page_run_def onResults_def page_init_def Let_def FRAME_INTERVAL_def TARGET_FPS_def)
  have v: "?v = \<lparr>globalRafId = Some 1, globalPendingResults = Some ''b'', globalLastFrameTime = 100,
      rafCallbacks = [1], nextRafHandle = 2, app = [''a'']\<rparr>"
    by (simp add: page_run_def onResults_def page_init_def Let_def FRAME_INTERVAL_def TARGET_FPS_def
        requestAnimationFrame_def)
  have t: "110 - globalLastFrameTime ?w < FRAME_INTERVAL"
    by (simp add: w FRAME_INTERVAL_def TARGET_FPS_def)
  have t0: "FRAME_INTERVAL \<le> 100 - globalLastFrameTime ?u \<and> (110 :: real) - 100 < FRAME_INTERVAL"
    by (simp add: u FRAME_INTERVAL_def TARGET_FPS_def)
  have late_late: "app (onResults ?p ''c'' 120 (onResults ?p ''b'' 110 ?w)) = [''a'']
      \<and> app (animationFrame ?p 125 (onResults ?p ''c'' 120 (onResults ?p ''b'' 110 ?w))) = [''a'', ''c'']"
    using t C2_one_deferred_unit_most_recent_wins
      [OF refl, where process = ?p and events = "[Results ''a'' 100]" and a = "[]"
        and ?t1.0 = 110 and ?t2.0 = 120 and ?r1.0 = "''b''" and ?r2.0 = "''c''" and ?t3.0 = 125]
    by (simp add: w FRAME_INTERVAL_def TARGET_FPS_def)
  have late_due: "app (onResults ?p ''c'' 140 (onResults ?p ''b'' 110 ?w)) = [''a'', ''c'']
      \<and> app (animationFrame ?p 145 (onResults ?p ''c'' 140 (onResults ?p ''b'' 110 ?w))) = [''a'', ''c'']"
    using t C2_one_deferred_unit_most_recent_wins
      [OF refl, where process = ?p and events = "[Results ''a'' 100]" and a = "[]"
        and ?t1.0 = 110 and ?t2.0 = 140 and ?r1.0 = "''b''" and ?r2.0 = "''c''" and ?t3.0 = 145]
    by (simp add: w FRAME_INTERVAL_def TARGET_FPS_def)
  have second: "rafCallbacks (onResults ?p ''c'' 120 ?v) = [1]
      \<and> app (animationFrame ?p 125 ?v) = [''a'', ''b'']"
    using C2_one_deferred_unit_most_recent_wins
      [OF refl, where process = ?p and events = "[Results ''a'' 100, Results ''b'' 110]"
        and a = "[]" and now = 120 and r = "''c''"]
      C2_one_deferred_unit_most_recent_wins
      [OF refl, where process = ?p and events = "[Results ''a'' 100, Results ''b'' 110]"
        and a = "[]" and now = 125 and r = "''b''"]
    by (simp add: v FRAME_INTERVAL_def TARGET_FPS_def)
  have due_late: "app (onResults ?p ''b'' 110 (onResults ?p ''a'' 100 ?u)) = [''a'']
      \<and> app (animationFrame ?p 115 (onResults ?p ''b'' 110 (onResults ?p ''a'' 100 ?u))) = [''a'', ''b'']"
    using t0 C2_one_deferred_unit_most_recent_wins
      [OF refl, where process = ?p and events = "[]" and a = "[]"
        and ?t1.0 = 100 and ?t2.0 = 110 and ?r1.0 = "''a''" and ?r2.0 = "''b''" and ?t3.0 = 115]
    by (simp add: u)
  have pending: "globalPendingResults ?v = Some ''b'' \<and> rafCallbacks ?v \<noteq> []"
    by (simp add: v)
  show ?thesis
    using t t0 late_late late_due second due_late pending by blast
qed

text \<open>
  The last sentence of the claim as it is worded, for two results 10 ms apart: the first
  arrives 100 ms after the last processed frame and is processed at once, before any
  animation frame, and the second is processed by the next animation frame. So two
  results are processed, and the one processed before the animation frame is the first.
\<close>

theorem C2_counterexample:
  "(110 :: real) - 100 < FRAME_INTERVAL
   \<and> app (page_run (\<lambda>r log. log @ [r]) [Results ''a'' 100, Results ''b'' 110] (page_init []))
       = [''a'']
   \<and> app (page_run (\<lambda>r log. log @ [r])
        [Results ''a'' 100, Results ''b'' 110, AnimationFrame 115] (page_init []))
       = [''a'', ''b'']"
  by (simp add: page_run_def onResults_def page_init_def Let_def FRAME_INTERVAL_def TARGET_FPS_def
      requestAnimationFrame_def animationFrame_def rafCallback_def)

section \<open>Properties of the JSON text of a progress record\<close>

lemma digit_char_props:
  assumes "d < 10"
  shows "is_digit (digit_char d)" and "digit_val (digit_char d) = d"
  using assms by (simp_all add: is_digit_def digit_val_def digit_char_def)

lemma show_nat_nonempty: "show_nat n \<noteq> []"
  by (subst show_nat.simps) simp

lemma show_nat_digits: "list_all is_digit (show_nat n)"
proof (induction n rule: show_nat.induct)
  case (1 n)
  show ?case
  proof (cases "n < 10")
    case True
    then show ?thesis by (subst show_nat.simps) (simp add: digit_char_props)
  next
    case False
    then have "list_all is_digit (show_nat (n div 10))" by (rule 1)
    then show ?thesis using False by (subst show_nat.simps) (simp add: digit_char_props)
  qed
qed

lemma nat_of_digits_snoc: "nat_of_digits (ds @ [c]) = 10 * nat_of_digits ds + digit_val c"
  by (simp add: nat_of_digits_def)

lemma nat_of_digits_show_nat: "nat_of_digits (show_nat n) = n"
proof (induction n rule: show_nat.induct)
  case (1 n)
  show ?case
  proof (cases "n < 10")
    case True
    then show ?thesis
      by (subst show_nat.simps) (simp add: nat_of_digits_def digit_char_props)
  next
    case False
    then have "nat_of_digits (show_nat (n div 10)) = n div 10" by (rule 1)
    then show ?thesis
      using False by (subst show_nat.simps) (simp add: nat_of_digits_snoc digit_char_props)
  qed
qed

lemma nat_of_digits_Nil: "nat_of_digits [] = 0"
  by (simp add: nat_of_digits_def)

lemma show_nat_length: "1 < length (show_nat n) \<Longrightarrow> 10 \<le> n"
  by (subst (asm) show_nat.simps) (simp split: if_splits)

lemma show_nat_hd: "0 < n \<Longrightarrow> hd (show_nat n) \<noteq> CHR ''0''"
proof (induction n rule: show_nat.induct)
  case (1 n)
  show ?case
  proof (cases "n < 10")
    case True
    have "digit_val (digit_char n) = n" using True by (rule digit_char_props)
    moreover have "digit_val CHR ''0'' = 0" by (simp add: digit_val_def)
    ultimately have "digit_char n \<noteq> CHR ''0''" using 1(2) by auto
    then show ?thesis
      using True by (subst show_nat.simps) simp
  next
    case False
    then have "hd (show_nat (n div 10)) \<noteq> CHR ''0''" by (intro 1) simp_all
    then show ?thesis
      using False by (subst show_nat.simps) (simp add: show_nat_nonempty)
  qed
qed

lemma takeWhile_digits:
  assumes "list_all is_digit ds" and "\<not> is_digit c"
  shows "takeWhile is_digit (ds @ c # r) = ds" and "dropWhile is_digit (ds @ c # r) = c # r"
  using assms by (induction ds) simp_all

lemma lex_number_show_nat:
  assumes "\<not> is_digit c" and "c \<noteq> CHR ''.''" and "c \<noteq> CHR ''e''" and "c \<noteq> CHR ''E''"
  shows "lex_number (show_nat n @ c # r) = Some (of_nat n, c # r)"
proof -
  obtain d ds where ds: "show_nat n = d # ds"
    using show_nat_nonempty [of n] by (cases "show_nat n") auto
  have dd: "is_digit d" using show_nat_digits [of n] by (simp add: ds)
  then have nm: "d \<noteq> CHR ''-''" by (auto simp: is_digit_def)
  have m: "lex_minus (show_nat n @ c # r) = (False, show_nat n @ c # r)"
    using nm by (simp add: lex_minus_def ds)
  have zero: "\<not> (1 < length (show_nat n) \<and> hd (show_nat n) = CHR ''0'')"
    using show_nat_length [of n] show_nat_hd [of n] by auto
  show ?thesis
    using assms zero
    by (simp add: lex_number_def m Let_def takeWhile_digits [OF show_nat_digits assms(1)]
        show_nat_nonempty lex_fraction_def lex_exponent_def decimal_value_def
        nat_of_digits_show_nat pow10_def nat_of_digits_Nil)
qed

lemma lex_number_show_int:
  assumes "\<not> is_digit c" and "c \<noteq> CHR ''.''" and "c \<noteq> CHR ''e''" and "c \<noteq> CHR ''E''"
  shows "lex_number (show_int i @ c # r) = Some (of_int i, c # r)"
proof (cases "i < 0")
  case False
  then show ?thesis
    using lex_number_show_nat [OF assms, of "nat i" r] by (simp add: show_int_def)
next
  case True
  let ?n = "nat (- i)"
  have m: "lex_minus (show_int i @ c # r) = (True, show_nat ?n @ c # r)"
    using True by (simp add: lex_minus_def show_int_def)
  have zero: "\<not> (1 < length (show_nat ?n) \<and> hd (show_nat ?n) = CHR ''0'')"
    using show_nat_length [of ?n] show_nat_hd [of ?n] True by auto
  have v: "- (of_nat ?n :: rat) = of_int i" using True by simp
  have "lex_number (show_int i @ c # r) = Some (- of_nat ?n, c # r)"
    using assms zero
    by (simp add: lex_number_def m Let_def takeWhile_digits [OF show_nat_digits assms(1)]
        show_nat_nonempty lex_fraction_def lex_exponent_def decimal_value_def
        nat_of_digits_show_nat pow10_def nat_of_digits_Nil)
  then show ?thesis unfolding v .
qed

lemma show_int_head:
  "\<exists>d ds. show_int i = d # ds \<and> (d = CHR ''-'' \<or> is_digit d)"
proof (cases "i < 0")
  case True
  then show ?thesis by (simp add: show_int_def)
next
  case False
  obtain d ds where ds: "show_nat (nat i) = d # ds"
    using show_nat_nonempty [of "nat i"] by (cases "show_nat (nat i)") auto
  have "is_digit d" using show_nat_digits [of "nat i"] by (simp add: ds)
  then show ?thesis using False by (simp add: show_int_def ds)
qed

lemma nat_of_digits_Cons:
  "nat_of_digits (c # cs) = digit_val c * 10 ^ length cs + nat_of_digits cs"
proof (induction cs rule: rev_induct)
  case Nil
  then show ?case by (simp add: nat_of_digits_def)
next
  case (snoc x xs)
  have "nat_of_digits (c # xs @ [x]) = 10 * nat_of_digits (c # xs) + digit_val x"
    using nat_of_digits_snoc [of "c # xs" x] by simp
  then show ?case
    using snoc by (simp add: nat_of_digits_snoc algebra_simps)
qed

lemma int_in_unit_interval:
  fixes r :: rat
  assumes "r \<in> \<int>" and "0 \<le> r" and "r < 1"
  shows "r = 0"
proof -
  obtain z where z: "r = of_int z" using assms(1) by (rule Ints_cases)
  have "0 \<le> z" and "z < 1" using assms(2,3) by (simp_all add: z)
  then show ?thesis by (simp add: z)
qed

lemma frac_digits_exact:
  assumes "0 \<le> r" and "r < 1" and "r * 10 ^ k \<in> \<int>" and "k \<le> n"
  shows "list_all is_digit (frac_digits n r)
     \<and> of_nat (nat_of_digits (frac_digits n r)) / 10 ^ length (frac_digits n r) = r"
  using assms
proof (induction n arbitrary: r k)
  case 0
  then have "r = 0" using int_in_unit_interval [of r] by simp
  then show ?case by (simp add: nat_of_digits_Nil)
next
  case (Suc n)
  show ?case
  proof (cases "r = 0")
    case True
    then show ?thesis by (simp add: nat_of_digits_Nil)
  next
    case False
    let ?d = "nat \<lfloor>10 * r\<rfloor>"
    let ?r = "10 * r - of_int \<lfloor>10 * r\<rfloor>"
    have k: "k \<noteq> 0"
      using False Suc.prems int_in_unit_interval [of r] by (cases k) auto
    then obtain j where j: "k = Suc j" by (cases k) auto
    have f0: "0 \<le> \<lfloor>10 * r\<rfloor>" using Suc.prems(1) by simp
    have f9: "\<lfloor>10 * r\<rfloor> < 10" using Suc.prems(2) by (simp add: floor_less_iff)
    have d: "?d < 10" using f0 f9 by linarith
    have dv: "(of_nat ?d :: rat) = of_int \<lfloor>10 * r\<rfloor>" using f0 by simp
    have r0: "0 \<le> ?r" by simp
    have r1: "?r < 1" by linarith
    have "?r * 10 ^ j = r * 10 ^ k - of_int \<lfloor>10 * r\<rfloor> * 10 ^ j"
      by (simp add: j algebra_simps)
    then have ri: "?r * 10 ^ j \<in> \<int>" using Suc.prems(3) by simp
    have jn: "j \<le> n" using Suc.prems(4) j by simp
    have ih: "list_all is_digit (frac_digits n ?r)
        \<and> of_nat (nat_of_digits (frac_digits n ?r)) / 10 ^ length (frac_digits n ?r) = ?r"
      using r0 r1 ri jn by (rule Suc.IH)
    let ?ds = "frac_digits n ?r"
    have fd: "frac_digits (Suc n) r = digit_char ?d # ?ds" using False by simp
    have dc: "is_digit (digit_char ?d)" and dvl: "digit_val (digit_char ?d) = ?d"
      using digit_char_props [OF d] by simp_all
    have "(of_nat (nat_of_digits (digit_char ?d # ?ds)) :: rat) / 10 ^ length (digit_char ?d # ?ds)
        = (of_nat ?d * 10 ^ length ?ds + of_nat (nat_of_digits ?ds)) / (10 * 10 ^ length ?ds)"
      by (simp add: nat_of_digits_Cons dvl)
    also have "\<dots> = (of_nat ?d + of_nat (nat_of_digits ?ds) / 10 ^ length ?ds) / 10"
      by (simp add: field_simps)
    also have "\<dots> = (of_int \<lfloor>10 * r\<rfloor> + ?r) / 10"
      using ih dv by simp
    also have "\<dots> = r" by simp
    finally have "of_nat (nat_of_digits (digit_char ?d # ?ds)) / 10 ^ length (digit_char ?d # ?ds) = r" .
    then show ?thesis unfolding fd using ih dc by simp
  qed
qed

lemma frac_digits_nonempty: "r \<noteq> 0 \<Longrightarrow> 0 < n \<Longrightarrow> frac_digits n r \<noteq> []"
  by (cases n) simp_all

lemma dvd_power_ten_self:
  fixes d :: nat
  assumes "d dvd 10 ^ k"
  shows "d dvd 10 ^ d"
  using assms
proof (induction d rule: less_induct)
  case (less d)
  have pos: "0 < d" using less.prems by (cases d) auto
  show ?case
  proof (cases "d = 1")
    case True
    then show ?thesis by simp
  next
    case False
    let ?g = "gcd d 10"
    have g1: "?g \<noteq> 1"
    proof
      assume "?g = 1"
      then have "coprime d 10" by (simp add: coprime_iff_gcd_eq_1)
      then have "coprime d (10 ^ k)" by (cases k) simp_all
      then have "is_unit d" using coprime_absorb_left [OF less.prems] by blast
      then show False using False by simp
    qed
    have g0: "0 < ?g" using pos by simp
    have g2: "2 \<le> ?g" using g0 g1 by linarith
    have "?g dvd d" by (rule gcd_dvd1)
    then obtain e where e: "d = ?g * e" by (rule dvdE)
    have epos: "0 < e" using pos e by (cases e) auto
    have elt: "e < d"
    proof -
      have eq: "?g * e = d" using e by (rule sym)
      have "e < ?g * e" using g2 epos by simp
      then show ?thesis by (simp only: eq)
    qed
    have "e dvd ?g * e" by (rule dvd_triv_right)
    then have "e dvd d" using e by (simp only: flip: e)
    then have "e dvd 10 ^ k" using less.prems by (rule dvd_trans)
    then have ih: "e dvd 10 ^ e" using elt less.IH by blast
    have "?g * e dvd 10 * 10 ^ e" using ih by (intro mult_dvd_mono) simp_all
    then have "d dvd 10 * 10 ^ e" by (simp only: flip: e)
    then have "d dvd 10 ^ Suc e" by simp
    moreover have "(10 :: nat) ^ Suc e dvd 10 ^ d" using elt by (intro le_imp_power_dvd) simp
    ultimately show ?thesis by (rule dvd_trans)
  qed
qed

lemma decimal_scaled:
  fixes q :: rat
  assumes "q = of_int m / 10 ^ k"
  shows "q * 10 ^ nat (snd (quotient_of q)) \<in> \<int>" and "0 < nat (snd (quotient_of q))"
proof -
  obtain n d where nd: "quotient_of q = (n, d)" by (cases "quotient_of q")
  have dpos: "0 < d" using nd by (rule quotient_of_denom_pos)
  have cop: "coprime n d" using nd by (rule quotient_of_coprime)
  have q: "q = of_int n / of_int d" using nd by (rule quotient_of_div)
  have "(of_int n :: rat) / of_int d = of_int m / 10 ^ k" using assms q by simp
  then have "(of_int n :: rat) * 10 ^ k = of_int m * of_int d"
    using dpos by (simp add: field_simps)
  then have "(of_int (n * 10 ^ k) :: rat) = of_int (m * d)" by simp
  then have eq: "n * 10 ^ k = m * d" by (simp only: of_int_eq_iff)
  have "d dvd n * 10 ^ k" unfolding eq by simp
  moreover have "coprime d n" using cop by (simp add: coprime_commute)
  ultimately have "d dvd 10 ^ k" by (simp add: coprime_dvd_mult_right_iff)
  then have "nat d dvd nat (10 ^ k)" using dpos by (simp add: nat_dvd_iff)
  then have "nat d dvd 10 ^ k" by (simp add: nat_power_eq)
  then have "nat d dvd 10 ^ nat d" by (rule dvd_power_ten_self)
  then obtain c where c: "(10 :: nat) ^ nat d = nat d * c" by (rule dvdE)
  have "(10 :: rat) ^ nat d = of_nat (10 ^ nat d)" by simp
  also have "\<dots> = of_nat (nat d * c)" by (simp only: c)
  also have "\<dots> = of_int d * of_nat c" using dpos by simp
  finally have p: "(10 :: rat) ^ nat d = of_int d * of_nat c" .
  have "q * 10 ^ nat d = of_int n * of_nat c"
    unfolding p q using dpos by simp
  then have "q * 10 ^ nat d \<in> \<int>" by simp
  then show "q * 10 ^ nat (snd (quotient_of q)) \<in> \<int>" by (simp add: nd)
  show "0 < nat (snd (quotient_of q))" using dpos by (simp add: nd)
qed

lemma lex_number_fraction:
  assumes c: "\<not> is_digit c" "c \<noteq> CHR ''.''" "c \<noteq> CHR ''e''" "c \<noteq> CHR ''E''"
    and ds: "list_all is_digit ds" "ds \<noteq> []"
  shows "lex_number ((if neg then ''-'' else []) @ show_nat n @ ''.'' @ ds @ c # r) =
     Some ((if neg then - 1 else 1)
           * (of_nat n + of_nat (nat_of_digits ds) / 10 ^ length ds), c # r)"
proof -
  obtain d dr where sn: "show_nat n = d # dr"
    using show_nat_nonempty [of n] by (cases "show_nat n") auto
  have dd: "is_digit d" using show_nat_digits [of n] by (simp add: sn)
  then have nm: "d \<noteq> CHR ''-''" by (auto simp: is_digit_def)
  have m: "lex_minus ((if neg then ''-'' else []) @ show_nat n @ ''.'' @ ds @ c # r)
      = (neg, show_nat n @ CHR ''.'' # ds @ c # r)"
    using nm by (cases neg) (simp_all add: lex_minus_def sn)
  have zero: "\<not> (1 < length (show_nat n) \<and> hd (show_nat n) = CHR ''0'')"
    using show_nat_length [of n] show_nat_hd [of n] by auto
  have point: "\<not> is_digit CHR ''.''" by (simp add: is_digit_def)
  have ip: "takeWhile is_digit (show_nat n @ CHR ''.'' # ds @ c # r) = show_nat n"
    and rest: "dropWhile is_digit (show_nat n @ CHR ''.'' # ds @ c # r) = CHR ''.'' # ds @ c # r"
    using takeWhile_digits [OF show_nat_digits point, of n "ds @ c # r"] by simp_all
  have fr: "lex_fraction (CHR ''.'' # ds @ c # r) = Some (ds, c # r)"
    using ds by (simp add: lex_fraction_def takeWhile_digits [OF ds(1) c(1)])
  have ex: "lex_exponent (c # r) = Some (0, c # r)"
    using c by (simp add: lex_exponent_def)
  show ?thesis
    unfolding lex_number_def m
    using zero
    by (simp add: Let_def ip rest fr ex show_nat_nonempty decimal_value_def
        nat_of_digits_show_nat pow10_def)
qed

lemma number_to_string_fraction:
  fixes q :: rat
  assumes dec: "q = of_int m / 10 ^ k" and ni: "q \<noteq> of_int \<lfloor>q\<rfloor>"
  shows "\<exists>ds. number_to_string (Finite q) =
           (if q < 0 then ''-'' else []) @ show_nat (nat \<lfloor>\<bar>q\<bar>\<rfloor>) @ ''.'' @ ds
         \<and> list_all is_digit ds \<and> ds \<noteq> []
         \<and> of_nat (nat \<lfloor>\<bar>q\<bar>\<rfloor>) + of_nat (nat_of_digits ds) / 10 ^ length ds = \<bar>q\<bar>"
proof -
  let ?n = "nat (snd (quotient_of q))"
  let ?r = "\<bar>q\<bar> - of_int \<lfloor>\<bar>q\<bar>\<rfloor>"
  let ?ds = "frac_digits ?n ?r"
  have r0: "0 \<le> ?r" by simp
  have r1: "?r < 1" by linarith
  have "\<bar>q\<bar> * 10 ^ ?n = \<bar>q * 10 ^ ?n\<bar>" by (simp add: abs_mult)
  then have "\<bar>q\<bar> * 10 ^ ?n \<in> \<int>" using decimal_scaled(1) [OF dec] by simp
  moreover have "?r * 10 ^ ?n = \<bar>q\<bar> * 10 ^ ?n - of_int \<lfloor>\<bar>q\<bar>\<rfloor> * 10 ^ ?n"
    by (simp add: algebra_simps)
  ultimately have ri: "?r * 10 ^ ?n \<in> \<int>" by simp
  have ex: "list_all is_digit ?ds \<and> of_nat (nat_of_digits ?ds) / 10 ^ length ?ds = ?r"
    using r0 r1 ri by (rule frac_digits_exact) simp
  have "\<bar>q\<bar> \<noteq> of_int \<lfloor>\<bar>q\<bar>\<rfloor>"
  proof
    assume a: "\<bar>q\<bar> = of_int \<lfloor>\<bar>q\<bar>\<rfloor>"
    then have "\<bar>q\<bar> \<in> \<int>" by (metis Ints_of_int)
    then have "q \<in> \<int>" by (simp add: abs_if split: if_splits)
    then have "q = of_int \<lfloor>q\<rfloor>" by (auto elim: Ints_cases)
    then show False using ni by simp
  qed
  then have rn: "?r \<noteq> 0" by simp
  have ne: "?ds \<noteq> []" using rn decimal_scaled(2) [OF dec] by (rule frac_digits_nonempty)
  have fl: "(of_nat (nat \<lfloor>\<bar>q\<bar>\<rfloor>) :: rat) = of_int \<lfloor>\<bar>q\<bar>\<rfloor>" by simp
  have v: "of_nat (nat \<lfloor>\<bar>q\<bar>\<rfloor>) + of_nat (nat_of_digits ?ds) / 10 ^ length ?ds = \<bar>q\<bar>"
    unfolding fl using ex by simp
  have "number_to_string (Finite q) =
      (if q < 0 then ''-'' else []) @ show_nat (nat \<lfloor>\<bar>q\<bar>\<rfloor>) @ ''.'' @ ?ds"
    using ni by (simp add: number_to_string_def)
  then show ?thesis using ex ne v by blast
qed

lemma lex_number_to_string:
  fixes q :: rat
  assumes dec: "q = of_int m / 10 ^ k"
    and c: "\<not> is_digit c" "c \<noteq> CHR ''.''" "c \<noteq> CHR ''e''" "c \<noteq> CHR ''E''"
  shows "lex_number (number_to_string (Finite q) @ c # r) = Some (q, c # r)"
proof (cases "q = of_int \<lfloor>q\<rfloor>")
  case True
  then have "number_to_string (Finite q) = show_int \<lfloor>q\<rfloor>"
    by (simp add: number_to_string_def)
  then have "lex_number (number_to_string (Finite q) @ c # r) = Some (of_int \<lfloor>q\<rfloor>, c # r)"
    using lex_number_show_int [OF c, of "\<lfloor>q\<rfloor>" r] by simp
  then show ?thesis using True by simp
next
  case False
  obtain ds where t: "number_to_string (Finite q) =
           (if q < 0 then ''-'' else []) @ show_nat (nat \<lfloor>\<bar>q\<bar>\<rfloor>) @ ''.'' @ ds"
    and d: "list_all is_digit ds" "ds \<noteq> []"
    and v: "of_nat (nat \<lfloor>\<bar>q\<bar>\<rfloor>) + of_nat (nat_of_digits ds) / 10 ^ length ds = \<bar>q\<bar>"
    using number_to_string_fraction [OF dec False] by blast
  have "lex_number (number_to_string (Finite q) @ c # r) =
      Some ((if q < 0 then - 1 else 1)
            * (of_nat (nat \<lfloor>\<bar>q\<bar>\<rfloor>) + of_nat (nat_of_digits ds) / 10 ^ length ds), c # r)"
    unfolding t using lex_number_fraction [OF c d, of "q < 0" "nat \<lfloor>\<bar>q\<bar>\<rfloor>" r] by simp
  moreover have "(if q < 0 then - 1 else 1) * \<bar>q\<bar> = q" by simp
  ultimately show ?thesis unfolding v by simp
qed

lemma number_to_string_head:
  fixes q :: rat
  shows "\<exists>d ds. number_to_string (Finite q) = d # ds \<and> (d = CHR ''-'' \<or> is_digit d)"
proof (cases "q = of_int \<lfloor>q\<rfloor>")
  case True
  then have "number_to_string (Finite q) = show_int \<lfloor>q\<rfloor>"
    by (simp add: number_to_string_def)
  then show ?thesis using show_int_head [of "\<lfloor>q\<rfloor>"] by simp
next
  case False
  obtain d dr where sn: "show_nat (nat \<lfloor>\<bar>q\<bar>\<rfloor>) = d # dr"
    using show_nat_nonempty [of "nat \<lfloor>\<bar>q\<bar>\<rfloor>"] by (cases "show_nat (nat \<lfloor>\<bar>q\<bar>\<rfloor>)") auto
  have "is_digit d" using show_nat_digits [of "nat \<lfloor>\<bar>q\<bar>\<rfloor>"] by (simp add: sn)
  then show ?thesis using False by (simp add: number_to_string_def sn)
qed

lemma tokenize_number_to_string:
  fixes q :: rat
  assumes dec: "q = of_int m / 10 ^ k"
    and c: "\<not> is_digit c" "c \<noteq> CHR ''.''" "c \<noteq> CHR ''e''" "c \<noteq> CHR ''E''"
  shows "tokenize (number_to_string (Finite q) @ c # r)
     = map_option ((#) (TNumber q)) (tokenize (c # r))"
proof -
  obtain d ds where ds: "number_to_string (Finite q) = d # ds"
    and d: "d = CHR ''-'' \<or> is_digit d"
    using number_to_string_head [of q] by blast
  have ws: "\<not> is_json_ws d" using d by (auto simp: is_json_ws_def is_digit_def)
  have "tokenize (d # ds @ c # r) =
      (case lex_number (d # ds @ c # r) of
         None \<Rightarrow> None
       | Some (q, rest) \<Rightarrow> map_option ((#) (TNumber q)) (tokenize rest))"
    using ws d by (subst tokenize.simps) auto
  then show ?thesis
    using lex_number_to_string [OF dec c, of r] by (simp add: ds)
qed

lemma tokenize_punctuation:
  "tokenize (CHR ''{'' # s) = map_option ((#) LBrace) (tokenize s)"
  "tokenize (CHR ''}'' # s) = map_option ((#) RBrace) (tokenize s)"
  "tokenize (CHR '':'' # s) = map_option ((#) Colon) (tokenize s)"
  "tokenize (CHR '','' # s) = map_option ((#) Comma) (tokenize s)"
  by (simp_all add: tokenize.simps is_json_ws_def is_digit_def dquote_def)

lemma tokenize_keys:
  "tokenize (quoted ''index'' @ s) = map_option ((#) (TString ''index'')) (tokenize s)"
  "tokenize (quoted ''completed'' @ s) = map_option ((#) (TString ''completed'')) (tokenize s)"
  "tokenize (quoted ''showTranslation'' @ s) =
     map_option ((#) (TString ''showTranslation'')) (tokenize s)"
  by (simp_all add: quoted_def tokenize.simps is_json_ws_def is_digit_def dquote_def
      backslash_def)

lemma tokenize_bool:
  "tokenize (json_bool b @ s) = map_option ((#) (if b then TTrue else TFalse)) (tokenize s)"
  by (simp add: json_bool_def tokenize.simps is_json_ws_def is_digit_def dquote_def)

lemma tokenize_null:
  "tokenize (''null'' @ s) = map_option ((#) TNull) (tokenize s)"
  by (simp add: tokenize.simps is_json_ws_def is_digit_def dquote_def)

lemma tokenize_stringify:
  fixes q :: rat
  assumes "index data = Finite q" and "q = of_int i / 10 ^ k"
  shows "tokenize (JSON_stringify data) =
     Some [LBrace, TString ''index'', Colon, TNumber q, Comma,
           TString ''completed'', Colon, (if completed data then TTrue else TFalse), Comma,
           TString ''showTranslation'', Colon,
           (if showTranslation data then TTrue else TFalse), RBrace]"
proof -
  have n: "json_number (index data) = number_to_string (Finite q)"
    by (simp add: assms(1) json_number_def)
  have c: "\<not> is_digit CHR '',''" by (simp add: is_digit_def)
  have num: "\<And>r. tokenize (number_to_string (Finite q) @ CHR '','' # r) =
      map_option ((#) (TNumber q)) (tokenize (CHR '','' # r))"
    by (rule tokenize_number_to_string [OF assms(2)]) (simp_all add: c)
  have "JSON_stringify data =
      CHR ''{'' # quoted ''index'' @ CHR '':'' # number_to_string (Finite q) @ CHR '','' # quoted ''completed''
        @ CHR '':'' # json_bool (completed data) @ CHR '','' # quoted ''showTranslation''
        @ CHR '':'' # json_bool (showTranslation data) @ ''}''"
    by (simp add: JSON_stringify_def n)
  then show ?thesis
    by (simp only: tokenize_punctuation tokenize_keys tokenize_bool num tokenize.simps(1)
        option.map)
qed

lemma parse_progress_tokens:
  "parse_value [] [LBrace, TString ''index'', Colon, TNumber q, Comma,
       TString ''completed'', Colon, (if c then TTrue else TFalse), Comma,
       TString ''showTranslation'', Colon, (if t then TTrue else TFalse), RBrace] =
     Some (JObject [(''index'', JNumber (Finite q)), (''completed'', JBool c),
                    (''showTranslation'', JBool t)])"
  by (cases c; cases t) (simp_all add: parse_value.simps parse_after.simps key_colon_def)

lemma JSON_parse_stringify:
  fixes q :: rat
  assumes "index data = Finite q" and "q = of_int i / 10 ^ k"
  shows "JSON_parse (JSON_stringify data) =
     Inr (JObject [(''index'', JNumber (Finite q)), (''completed'', JBool (completed data)),
                   (''showTranslation'', JBool (showTranslation data))])"
  by (simp add: JSON_parse_def tokenize_stringify [OF assms] parse_progress_tokens)

lemma validate_progress_object:
  "validate (JObject [(''index'', JNumber n), (''completed'', JBool c), (''showTranslation'', JBool t)])
     = Inr (Some \<lparr>index = n, completed = c, showTranslation = t\<rparr>)"
  by (simp add: validate_def getProperty_def is_number_def is_boolean_def)

lemma validate_stringify:
  assumes "index data = Finite (of_int i / 10 ^ k)"
  shows "\<exists>parsed. JSON_parse (JSON_stringify data) = Inr parsed \<and> validate parsed = Inr (Some data)"
proof -
  let ?parsed = "JObject [(''index'', JNumber (index data)), (''completed'', JBool (completed data)),
                   (''showTranslation'', JBool (showTranslation data))]"
  have p: "JSON_parse (JSON_stringify data) = Inr ?parsed"
    unfolding assms by (rule JSON_parse_stringify [OF assms refl])
  have d: "\<lparr>index = index data, completed = completed data,
      showTranslation = showTranslation data\<rparr> = data"
    by simp
  have "validate ?parsed = Inr (Some data)"
    unfolding validate_progress_object d ..
  with p show ?thesis by blast
qed

section \<open>Properties of \<open>loadProgress\<close> and of the sensitivity loaders\<close>

lemma loadProgress_returns: "\<exists>r. loadProgress categoryId ls = Inr r"
  by (auto simp: loadProgress_def Let_def split: sum.splits)

lemma validate_Some_well_formed:
  assumes "JSON_parse text = Inr parsed" and "validate parsed = Inr (Some p)"
  shows "well_formed text"
proof (cases parsed)
  case (JObject members)
  then show ?thesis
    using assms
    by (auto simp: well_formed_def validate_def getProperty_def split: if_splits)
qed (use assms in \<open>auto simp: validate_def getProperty_def is_number_def split: if_splits\<close>)

lemma loadProgress_try_malformed:
  assumes "accessible ls" and "items ls key = Some text" and "text \<noteq> []"
    and "\<not> well_formed text"
  shows "loadProgress_try key ls = Inr (None, ls\<lparr>items := (items ls)(key := None)\<rparr>)
     \<or> (\<exists>e. loadProgress_try key ls = Inl e)"
proof (cases "JSON_parse text")
  case (Inl e)
  then show ?thesis using assms by (simp add: loadProgress_try_def getItem_def)
next
  case (Inr parsed)
  show ?thesis
  proof (cases "validate parsed")
    case (Inl e)
    then show ?thesis using assms Inr by (simp add: loadProgress_try_def getItem_def)
  next
    case v: (Inr r)
    have "r = None"
      using validate_Some_well_formed [OF Inr] v assms(4) by (cases r) auto
    then show ?thesis
      using assms Inr v by (simp add: loadProgress_try_def getItem_def removeItem_def)
  qed
qed

lemma loadProgress_malformed:
  assumes "categoryId \<noteq> []" and "accessible ls"
    and "items ls (STORAGE_PREFIX @ categoryId) = Some text" and "text \<noteq> []"
    and "\<not> well_formed text"
  shows "loadProgress categoryId ls =
     Inr (None, ls\<lparr>items := (items ls)(STORAGE_PREFIX @ categoryId := None)\<rparr>)"
  using loadProgress_try_malformed [OF assms(2-5)] assms(1,2)
  by (auto simp: loadProgress_def Let_def removeItem_def)

lemma well_formed_empty: "\<not> well_formed []"
  by (simp add: well_formed_def JSON_parse_def tokenize.simps parse_value.simps)

lemma well_formed_empty_object: "\<not> well_formed ''{}''"
  by (simp add: well_formed_def JSON_parse_def tokenize.simps parse_value.simps
      parse_after.simps is_json_ws_def is_digit_def dquote_def is_number_def)

lemma well_formed_open_array: "\<not> well_formed ''[1,2''"
  by (simp add: well_formed_def JSON_parse_def tokenize.simps parse_value.simps
      parse_after.simps is_json_ws_def is_digit_def dquote_def lex_number_def lex_minus_def
      lex_fraction_def lex_exponent_def Let_def)

text \<open>
  Claim C7, as the code has it. \<open>loadProgress\<close> never throws, whatever the storage does.
  When the storage is accessible and holds, under the key of a non-empty category, a
  non-empty text that is malformed, \<open>loadProgress\<close> returns \<open>null\<close> and leaves the storage
  without the entry.
\<close>

theorem C7_malformed_entry_removed:
  "(\<exists>r. loadProgress categoryId ls = Inr r)
   \<and> (categoryId \<noteq> [] \<and> accessible ls
        \<and> items ls (STORAGE_PREFIX @ categoryId) = Some text \<and> text \<noteq> []
        \<and> \<not> well_formed text \<longrightarrow>
      loadProgress categoryId ls =
        Inr (None, ls\<lparr>items := (items ls)(STORAGE_PREFIX @ categoryId := None)\<rparr>))"
proof (rule conjI)
  show "\<exists>r. loadProgress categoryId ls = Inr r" by (rule loadProgress_returns)
  show "categoryId \<noteq> [] \<and> accessible ls
        \<and> items ls (STORAGE_PREFIX @ categoryId) = Some text \<and> text \<noteq> []
        \<and> \<not> well_formed text \<longrightarrow>
      loadProgress categoryId ls =
        Inr (None, ls\<lparr>items := (items ls)(STORAGE_PREFIX @ categoryId := None)\<rparr>)"
    using loadProgress_malformed [of categoryId ls "text"] by blast
qed

theorem C7_witness:
  "\<not> well_formed ''{}''
   \<and> loadProgress ''animals'' (single_entry ''progress:animals'' ''{}'') =
       Inr (None, (single_entry ''progress:animals'' ''{}'')\<lparr>items := Map.empty\<rparr>)
   \<and> \<not> well_formed ''[1,2''
   \<and> loadProgress ''animals'' (single_entry ''progress:animals'' ''[1,2'') =
       Inr (None, (single_entry ''progress:animals'' ''[1,2'')\<lparr>items := Map.empty\<rparr>)"
  using C7_malformed_entry_removed
    [of "''animals''" "single_entry ''progress:animals'' ''{}''" "''{}''"]
    C7_malformed_entry_removed
    [of "''animals''" "single_entry ''progress:animals'' ''[1,2''" "''[1,2''"]
  by (simp add: well_formed_empty_object well_formed_open_array single_entry_def
      STORAGE_PREFIX_def)

text \<open>
  The claim as stated fails for the empty text: it does not parse, \<open>loadProgress\<close>
  returns \<open>null\<close>, and the entry stays in the storage.
\<close>

theorem C7_counterexample:
  "\<not> well_formed []
   \<and> loadProgress ''animals'' (single_entry ''progress:animals'' []) =
       Inr (None, single_entry ''progress:animals'' [])
   \<and> items (single_entry ''progress:animals'' []) ''progress:animals'' = Some []"
  by (simp add: well_formed_empty loadProgress_def loadProgress_try_def getItem_def Let_def
      single_entry_def STORAGE_PREFIX_def)

lemma parseFloat_5: "parseFloat ''5'' = Finite 5"
  by (simp add: parseFloat_def Let_def is_js_ws_def is_digit_def lex_exponent_def
      decimal_value_def nat_of_digits_def digit_val_def pow10_def)

lemma numericSensitivity_init_range: "in_unit_range (numericSensitivity_init ls)"
  by (auto simp: numericSensitivity_init_def in_unit_range_def Let_def js_ge_def
      split: sum.splits option.splits)

text \<open>
  Claim C8 at the stored text \<open>5\<close>: the settings panel's loader returns 5, the camera
  feed's initializer returns the default, and the latter is between 0 and 1 for every
  storage.
\<close>

theorem C8_settings_loader_keeps_out_of_range:
  "loadGestureSensitivity (single_entry ''gestureSensitivity'' ''5'') = Finite 5
   \<and> \<not> in_unit_range (loadGestureSensitivity (single_entry ''gestureSensitivity'' ''5''))
   \<and> numericSensitivity_init (single_entry ''gestureSensitivity'' ''5'') = Finite (12 / 100)
   \<and> (\<forall>ls. in_unit_range (numericSensitivity_init ls))"
proof -
  have l: "loadGestureSensitivity (single_entry ''gestureSensitivity'' ''5'') = Finite 5"
    by (simp add: loadGestureSensitivity_def loadNumberFromStorage_def getItem_def
        single_entry_def parseFloat_5 isNaN_def)
  have n: "numericSensitivity_init (single_entry ''gestureSensitivity'' ''5'') = Finite (12 / 100)"
    by (simp add: numericSensitivity_init_def getItem_def single_entry_def parseFloat_5
        isNaN_def js_ge_def)
  have "\<not> in_unit_range (Finite 5)" by (simp add: in_unit_range_def js_ge_def)
  then show ?thesis
    using l n numericSensitivity_init_range by simp
qed

section \<open>Properties of the debounced write\<close>

lemma storage_key_inj: "(STORAGE_PREFIX @ c = STORAGE_PREFIX @ c') = (c = c')"
  by simp

lemma dw_frame:
  "timeouts (debouncedWriteProgress c m) = timeouts m"
  "nextTimeout (debouncedWriteProgress c m) = nextTimeout m"
  "clock (debouncedWriteProgress c m) = clock m"
  "accessible (localStorage (debouncedWriteProgress c m)) = accessible (localStorage m)"
  "quotaExceeded (localStorage (debouncedWriteProgress c m)) = quotaExceeded (localStorage m)"
  by (simp_all add: debouncedWriteProgress_def Let_def setItem_def split: option.splits)

lemma dw_other:
  assumes "c' \<noteq> c"
  shows "pendingWrites (debouncedWriteProgress c' m) c = pendingWrites m c"
    and "debounceTimers (debouncedWriteProgress c' m) c = debounceTimers m c"
    and "writes_to (STORAGE_PREFIX @ c) (debouncedWriteProgress c' m) = writes_to (STORAGE_PREFIX @ c) m"
    and "items (localStorage (debouncedWriteProgress c' m)) (STORAGE_PREFIX @ c)
          = items (localStorage m) (STORAGE_PREFIX @ c)"
  using assms
  by (simp_all add: debouncedWriteProgress_def Let_def setItem_def writes_to_def
      split: option.splits)

lemma dw_timers:
  "debounceTimers (debouncedWriteProgress c' m) c =
     (if c = c' \<and> pendingWrites m c' \<noteq> None then None else debounceTimers m c)"
  by (simp add: debouncedWriteProgress_def Let_def setItem_def split: option.splits)

lemma dw_self:
  assumes "pendingWrites m c = Some v"
  shows "pendingWrites (debouncedWriteProgress c m) c = None"
    and "debounceTimers (debouncedWriteProgress c m) c = None"
    and "writes_to (STORAGE_PREFIX @ c) (debouncedWriteProgress c m) =
          writes_to (STORAGE_PREFIX @ c) m
          @ (if writable (localStorage m) then [JSON_stringify v] else [])"
    and "writable (localStorage m) \<Longrightarrow>
          items (localStorage (debouncedWriteProgress c m)) (STORAGE_PREFIX @ c)
            = Some (JSON_stringify v)"
  using assms
  by (simp_all add: debouncedWriteProgress_def Let_def setItem_def writes_to_def writable_def)

lemma writes_to_frame:
  "writes_to k (m\<lparr>timeouts := ts, clock := t\<rparr>) = writes_to k m"
  by (simp add: writes_to_def)

lemma fire_frame:
  "timeouts (fire e m) = filter (\<lambda>e'. fst e' \<noteq> fst e) (timeouts m)"
  "nextTimeout (fire e m) = nextTimeout m"
  "accessible (localStorage (fire e m)) = accessible (localStorage m)"
  "quotaExceeded (localStorage (fire e m)) = quotaExceeded (localStorage m)"
  by (simp_all add: fire_def dw_frame)

lemma fire_writable: "writable (localStorage (fire e m)) = writable (localStorage m)"
  by (simp add: writable_def fire_frame)

lemma fire_other:
  assumes "snd (snd e) \<noteq> c"
  shows "pendingWrites (fire e m) c = pendingWrites m c"
    and "debounceTimers (fire e m) c = debounceTimers m c"
    and "writes_to (STORAGE_PREFIX @ c) (fire e m) = writes_to (STORAGE_PREFIX @ c) m"
    and "items (localStorage (fire e m)) (STORAGE_PREFIX @ c)
          = items (localStorage m) (STORAGE_PREFIX @ c)"
  using assms by (simp_all add: fire_def dw_other writes_to_frame)

lemma fire_self:
  assumes "pendingWrites m c = Some v" and "snd (snd e) = c"
  shows "pendingWrites (fire e m) c = None"
    and "debounceTimers (fire e m) c = None"
    and "writes_to (STORAGE_PREFIX @ c) (fire e m) =
          writes_to (STORAGE_PREFIX @ c) m
          @ (if writable (localStorage m) then [JSON_stringify v] else [])"
    and "writable (localStorage m) \<Longrightarrow>
          items (localStorage (fire e m)) (STORAGE_PREFIX @ c) = Some (JSON_stringify v)"
proof -
  let ?m = "m\<lparr>timeouts := filter (\<lambda>e'. fst e' \<noteq> fst e) (timeouts m), clock := fst (snd e)\<rparr>"
  have p: "pendingWrites ?m c = Some v" using assms(1) by simp
  have f: "fire e m = debouncedWriteProgress c ?m" using assms(2) by (simp add: fire_def)
  show "pendingWrites (fire e m) c = None" unfolding f using dw_self(1) [OF p] .
  show "debounceTimers (fire e m) c = None" unfolding f using dw_self(2) [OF p] .
  show "writes_to (STORAGE_PREFIX @ c) (fire e m) =
          writes_to (STORAGE_PREFIX @ c) m
          @ (if writable (localStorage m) then [JSON_stringify v] else [])"
    unfolding f using dw_self(3) [OF p] by (simp add: writes_to_frame)
  show "items (localStorage (fire e m)) (STORAGE_PREFIX @ c) = Some (JSON_stringify v)"
    if "writable (localStorage m)"
    unfolding f using dw_self(4) [OF p] that by simp
qed

lemma fold_fire_frame:
  "timeouts (fold fire es m) = filter (\<lambda>e'. fst e' \<notin> fst ` set es) (timeouts m)"
  "nextTimeout (fold fire es m) = nextTimeout m"
  "writable (localStorage (fold fire es m)) = writable (localStorage m)"
proof (induction es arbitrary: m)
  case Nil
  {
    case 1 show ?case by simp
  next
    case 2 show ?case by simp
  next
    case 3 show ?case by simp
  }
next
  case (Cons e es)
  {
    case 1
    show ?case by (simp add: Cons.IH(1) fire_frame conj_commute)
  next
    case 2
    show ?case by (simp add: Cons.IH(2) fire_frame)
  next
    case 3
    show ?case by (simp add: Cons.IH(3) fire_writable)
  }
qed

lemma fold_fire_other:
  assumes "\<forall>e \<in> set es. snd (snd e) \<noteq> c"
  shows "pendingWrites (fold fire es m) c = pendingWrites m c
     \<and> debounceTimers (fold fire es m) c = debounceTimers m c
     \<and> writes_to (STORAGE_PREFIX @ c) (fold fire es m) = writes_to (STORAGE_PREFIX @ c) m
     \<and> items (localStorage (fold fire es m)) (STORAGE_PREFIX @ c)
          = items (localStorage m) (STORAGE_PREFIX @ c)"
  using assms
proof (induction es arbitrary: m)
  case Nil
  then show ?case by simp
next
  case (Cons e es)
  have e: "snd (snd e) \<noteq> c" using Cons.prems by simp
  have "\<forall>e \<in> set es. snd (snd e) \<noteq> c" using Cons.prems by simp
  then show ?case
    using Cons.IH [of "fire e m"] by (simp add: fire_other [OF e])
qed

lemma fire_ok:
  assumes ok: "module_ok m" and e: "e \<in> set (timeouts m)"
  shows "module_ok (fire e m)"
proof -
  have reg: "\<And>x. x \<in> set (timeouts m) \<Longrightarrow>
      fst x \<noteq> 0 \<and> fst x < nextTimeout m \<and> debounceTimers m (snd (snd x)) = Some (fst x)"
    using ok by (simp add: module_ok_def list_all_iff)
  have "debounceTimers (fire e m) (snd (snd x)) = Some (fst x)"
    if x: "x \<in> set (timeouts m)" and ne: "fst x \<noteq> fst e" for x
  proof -
    have "snd (snd x) \<noteq> snd (snd e)"
      using reg [OF x] reg [OF e] ne by auto
    then show ?thesis
      using reg [OF x] by (simp add: fire_def dw_timers)
  qed
  then show ?thesis
    using ok reg
    by (auto simp: module_ok_def list_all_iff fire_frame distinct_map_filter)
qed

lemma fold_fire_ok:
  assumes "module_ok m" and "set es \<subseteq> set (timeouts m)" and "distinct (map fst es)"
  shows "module_ok (fold fire es m)"
  using assms
proof (induction es arbitrary: m)
  case Nil
  then show ?case by simp
next
  case (Cons e es)
  have e: "e \<in> set (timeouts m)" using Cons.prems(2) by simp
  have ok: "module_ok (fire e m)" using Cons.prems(1) e by (rule fire_ok)
  have sub: "set es \<subseteq> set (timeouts (fire e m))"
  proof
    fix x
    assume x: "x \<in> set es"
    then have "x \<in> set (timeouts m)" using Cons.prems(2) by auto
    moreover have "fst x \<noteq> fst e" using Cons.prems(3) x by (auto simp: image_iff)
    ultimately show "x \<in> set (timeouts (fire e m))" by (simp add: fire_frame)
  qed
  have "distinct (map fst es)" using Cons.prems(3) by simp
  then have "module_ok (fold fire es (fire e m))"
    using ok sub by (intro Cons.IH)
  then show ?case by simp
qed

lemma due_set: "set (due t m) = {e \<in> set (timeouts m). fst (snd e) \<le> t}"
  by (auto simp: due_def)

lemma due_distinct:
  assumes "distinct (map fst (timeouts m))"
  shows "distinct (map fst (due t m))"
proof -
  have d: "distinct (timeouts m)" and i: "inj_on fst (set (timeouts m))"
    using assms by (simp_all add: distinct_map)
  have "distinct (due t m)" using d by (simp add: due_def)
  moreover have "inj_on fst (set (due t m))"
    using i by (rule inj_on_subset) (auto simp: due_set)
  ultimately show ?thesis by (simp add: distinct_map)
qed

lemma advance_ok:
  assumes "module_ok m"
  shows "module_ok (advance dt m)"
proof -
  have "module_ok (fold fire (due (clock m + dt) m) m)"
    using assms
    by (intro fold_fire_ok) (auto simp: due_set due_distinct module_ok_def)
  then show ?thesis by (simp add: advance_def module_ok_def)
qed

lemma saveProgress_unfold:
  assumes "c \<noteq> []"
  shows "saveProgress c v m =
     m\<lparr>pendingWrites := (pendingWrites m)(c \<mapsto> v),
       timeouts := remaining c m @ [(nextTimeout m, clock m + DEBOUNCE_MS, c)],
       nextTimeout := nextTimeout m + 1,
       debounceTimers := (debounceTimers m)(c \<mapsto> nextTimeout m)\<rparr>"
  using assms
  by (simp add: saveProgress_def setTimeout_def clearTimeout_def remaining_def Let_def
      split: option.splits)

lemma saveProgress_frame:
  "localStorage (saveProgress c v m) = localStorage m"
  "clock (saveProgress c v m) = clock m"
  by (simp_all add: saveProgress_def setTimeout_def clearTimeout_def Let_def
      split: option.splits prod.splits)

lemma saveProgress_pending:
  "c \<noteq> [] \<Longrightarrow> pendingWrites (saveProgress c v m) c = Some v"
  by (simp add: saveProgress_unfold)

lemma remaining_subset:
  assumes "module_ok m" and "x \<in> set (remaining c m)"
  shows "x \<in> set (timeouts m)" and "snd (snd x) \<noteq> c"
proof -
  have reg: "\<And>y. y \<in> set (timeouts m) \<Longrightarrow>
      fst y \<noteq> 0 \<and> debounceTimers m (snd (snd y)) = Some (fst y)"
    using assms(1) by (simp add: module_ok_def list_all_iff)
  show x: "x \<in> set (timeouts m)"
    using assms(2) by (auto simp: remaining_def split: option.splits if_splits)
  show "snd (snd x) \<noteq> c"
  proof
    assume c: "snd (snd x) = c"
    then have h: "debounceTimers m c = Some (fst x)" and nz: "fst x \<noteq> 0"
      using reg [OF x] by simp_all
    then have "remaining c m = filter (\<lambda>e. fst e \<noteq> fst x) (timeouts m)"
      by (simp add: remaining_def)
    then show False using assms(2) by simp
  qed
qed

lemma remaining_distinct:
  assumes "module_ok m"
  shows "distinct (map fst (remaining c m))"
  using assms
  by (simp add: module_ok_def remaining_def distinct_map_filter split: option.splits)

lemma saveProgress_timeouts_of:
  assumes "module_ok m" and "c \<noteq> []"
  shows "timeouts_of c (saveProgress c v m) = [(nextTimeout m, clock m + DEBOUNCE_MS, c)]"
proof -
  have "filter (\<lambda>e. snd (snd e) = c) (remaining c m) = []"
    using remaining_subset(2) [OF assms(1)] by (auto simp: filter_empty_conv)
  then show ?thesis
    by (simp add: timeouts_of_def saveProgress_unfold [OF assms(2)])
qed

lemma saveProgress_ok:
  assumes "module_ok m"
  shows "module_ok (saveProgress c v m)"
proof (cases "c = []")
  case True
  then show ?thesis using assms by (simp add: saveProgress_def)
next
  case False
  have reg: "\<And>x. x \<in> set (timeouts m) \<Longrightarrow>
      fst x \<noteq> 0 \<and> fst x < nextTimeout m \<and> debounceTimers m (snd (snd x)) = Some (fst x)"
    using assms by (simp add: module_ok_def list_all_iff)
  have d: "distinct (map fst (remaining c m))" by (rule remaining_distinct [OF assms])
  have each: "fst x \<noteq> 0 \<and> fst x < nextTimeout m
      \<and> snd (snd x) \<noteq> c \<and> debounceTimers m (snd (snd x)) = Some (fst x)"
    if "x \<in> set (remaining c m)" for x
    using remaining_subset [OF assms that] reg by blast
  have fresh: "nextTimeout m \<notin> fst ` set (remaining c m)"
  proof
    assume "nextTimeout m \<in> fst ` set (remaining c m)"
    then obtain x where "x \<in> set (remaining c m)" and "fst x = nextTimeout m" by auto
    then show False using each [of x] by simp
  qed
  have pos: "0 < nextTimeout m" using assms by (simp add: module_ok_def)
  have all: "list_all (\<lambda>e. fst e \<noteq> 0 \<and> fst e < nextTimeout m + 1
      \<and> ((debounceTimers m)(c \<mapsto> nextTimeout m)) (snd (snd e)) = Some (fst e)) (remaining c m)"
    unfolding list_all_iff
  proof
    fix x
    assume "x \<in> set (remaining c m)"
    then show "fst x \<noteq> 0 \<and> fst x < nextTimeout m + 1
      \<and> ((debounceTimers m)(c \<mapsto> nextTimeout m)) (snd (snd x)) = Some (fst x)"
      using each [of x] by simp
  qed
  show ?thesis
    unfolding saveProgress_unfold [OF False]
    using d fresh pos all
    by (simp add: module_ok_def)
qed

lemma module_init_ok: "module_ok (module_init ls)"
  by (simp add: module_ok_def module_init_def)

lemma module_step_ok:
  assumes "module_ok m"
  shows "module_ok (module_step ev m)"
proof (cases ev)
  case (Save c d)
  then show ?thesis using assms by (simp add: saveProgress_ok)
next
  case (Wait dt)
  then show ?thesis using assms by (simp add: advance_ok)
next
  case (Load c)
  have "module_ok (m\<lparr>localStorage := ls\<rparr>)" for ls
    using assms by (simp add: module_ok_def)
  then show ?thesis using assms Load by (simp split: sum.splits prod.splits)
qed

lemma module_run_ok: "module_ok m \<Longrightarrow> module_ok (module_run events m)"
  unfolding module_run_def by (induction events arbitrary: m) (simp_all add: module_step_ok)

lemma module_reachable_ok: "module_ok (module_run events (module_init ls))"
  by (simp add: module_run_ok module_init_ok)

text \<open>
  A category is armed when its latest request is pending and exactly one timeout, due
  at \<open>d\<close>, is set for it.
\<close>

lemma fold_fire_timeouts_of:
  "timeouts_of c (fold fire es m) = filter (\<lambda>e'. fst e' \<notin> fst ` set es) (timeouts_of c m)"
  unfolding timeouts_of_def fold_fire_frame(1) filter_filter
  by (rule filter_cong) auto

lemma advance_timeouts_of:
  "timeouts_of c (advance dt m) = timeouts_of c (fold fire (due (clock m + dt) m) m)"
  by (simp add: advance_def timeouts_of_def)

lemma advance_frame:
  "clock (advance dt m) = clock m + dt"
  "writable (localStorage (advance dt m)) = writable (localStorage m)"
  by (simp_all add: advance_def fold_fire_frame)

lemma advance_early:
  assumes ok: "module_ok m" and t: "timeouts_of c m = [(h, d, c)]" and early: "clock m + g < d"
  shows "timeouts_of c (advance g m) = [(h, d, c)]"
    and "pendingWrites (advance g m) c = pendingWrites m c"
    and "writes_to (STORAGE_PREFIX @ c) (advance g m) = writes_to (STORAGE_PREFIX @ c) m"
    and "items (localStorage (advance g m)) (STORAGE_PREFIX @ c)
          = items (localStorage m) (STORAGE_PREFIX @ c)"
proof -
  let ?es = "due (clock m + g) m"
  have inj: "inj_on fst (set (timeouts m))"
    using ok by (simp add: module_ok_def distinct_map)
  have "(h, d, c) \<in> set (timeouts_of c m)" by (simp add: t)
  then have mem: "(h, d, c) \<in> set (timeouts m)" by (simp add: timeouts_of_def)
  have only: "x = (h, d, c)" if "x \<in> set (timeouts m)" and "snd (snd x) = c" for x
  proof -
    have "x \<in> set (timeouts_of c m)" using that by (simp add: timeouts_of_def)
    then show ?thesis by (simp add: t)
  qed
  have other: "\<forall>e \<in> set ?es. snd (snd e) \<noteq> c"
    using only early by (fastforce simp: due_set)
  have handle: "h \<notin> fst ` set ?es"
  proof
    assume "h \<in> fst ` set ?es"
    then obtain x where x: "x \<in> set ?es" and hx: "fst x = h" by auto
    have "x \<in> set (timeouts m)" using x by (simp add: due_set)
    then have "x = (h, d, c)"
      using inj_onD [OF inj, of x "(h, d, c)"] mem hx by simp
    then show False using x early by (simp add: due_set)
  qed
  show "timeouts_of c (advance g m) = [(h, d, c)]"
    unfolding advance_timeouts_of fold_fire_timeouts_of t using handle by simp
  show "pendingWrites (advance g m) c = pendingWrites m c"
    using fold_fire_other [OF other, of m] by (simp add: advance_def)
  show "writes_to (STORAGE_PREFIX @ c) (advance g m) = writes_to (STORAGE_PREFIX @ c) m"
    using fold_fire_other [OF other, of m] by (simp add: advance_def writes_to_def)
  show "items (localStorage (advance g m)) (STORAGE_PREFIX @ c)
          = items (localStorage m) (STORAGE_PREFIX @ c)"
    using fold_fire_other [OF other, of m] by (simp add: advance_def)
qed

lemma advance_late:
  assumes ok: "module_ok m" and t: "timeouts_of c m = [(h, d, c)]"
    and p: "pendingWrites m c = Some v" and late: "d \<le> clock m + dt"
  shows "timeouts_of c (advance dt m) = []"
    and "pendingWrites (advance dt m) c = None"
    and "debounceTimers (advance dt m) c = None"
    and "writes_to (STORAGE_PREFIX @ c) (advance dt m) =
          writes_to (STORAGE_PREFIX @ c) m
          @ (if writable (localStorage m) then [JSON_stringify v] else [])"
    and "writable (localStorage m) \<Longrightarrow>
          items (localStorage (advance dt m)) (STORAGE_PREFIX @ c) = Some (JSON_stringify v)"
proof -
  let ?es = "due (clock m + dt) m"
  let ?ce = "(h, d, c)"
  have "?ce \<in> set (timeouts_of c m)" by (simp add: t)
  then have mem: "?ce \<in> set (timeouts m)" by (simp add: timeouts_of_def)
  have only: "x = ?ce" if "x \<in> set (timeouts m)" and "snd (snd x) = c" for x
  proof -
    have "x \<in> set (timeouts_of c m)" using that by (simp add: timeouts_of_def)
    then show ?thesis by (simp add: t)
  qed
  have ce: "?ce \<in> set ?es" using mem late by (simp add: due_set)
  from split_list [OF ce] obtain es1 es2 where dec: "?es = es1 @ ?ce # es2"
    by blast
  have "distinct (timeouts m)"
    using ok by (simp add: module_ok_def distinct_map)
  then have "distinct ?es" by (simp add: due_def)
  then have nin: "?ce \<notin> set es1" "?ce \<notin> set es2"
    unfolding dec by simp_all
  have o1: "\<forall>e \<in> set es1. snd (snd e) \<noteq> c"
  proof (intro ballI notI)
    fix e
    assume e: "e \<in> set es1" and c: "snd (snd e) = c"
    have "e \<in> set ?es" unfolding dec using e by simp
    then have "e \<in> set (timeouts m)" by (simp add: due_set)
    then have "e = ?ce" using c by (rule only)
    then show False using e nin(1) by simp
  qed
  have o2: "\<forall>e \<in> set es2. snd (snd e) \<noteq> c"
  proof (intro ballI notI)
    fix e
    assume e: "e \<in> set es2" and c: "snd (snd e) = c"
    have "e \<in> set ?es" unfolding dec using e by simp
    then have "e \<in> set (timeouts m)" by (simp add: due_set)
    then have "e = ?ce" using c by (rule only)
    then show False using e nin(2) by simp
  qed
  let ?m1 = "fold fire es1 m"
  let ?m2 = "fire ?ce ?m1"
  have f: "fold fire ?es m = fold fire es2 ?m2" unfolding dec by simp
  have p1: "pendingWrites ?m1 c = Some v"
    using fold_fire_other [OF o1, of m] p by simp
  have w1: "writable (localStorage ?m1) = writable (localStorage m)"
    by (simp add: fold_fire_frame)
  have a: "pendingWrites ?m2 c = None" by (rule fire_self(1) [OF p1]) simp
  have b: "debounceTimers ?m2 c = None" by (rule fire_self(2) [OF p1]) simp
  have cw: "writes_to (STORAGE_PREFIX @ c) ?m2 =
      writes_to (STORAGE_PREFIX @ c) m @ (if writable (localStorage m) then [JSON_stringify v] else [])"
    using fire_self(3) [OF p1, of ?ce] fold_fire_other [OF o1, of m] by (simp add: w1)
  have di: "writable (localStorage m) \<Longrightarrow>
      items (localStorage ?m2) (STORAGE_PREFIX @ c) = Some (JSON_stringify v)"
    using fire_self(4) [OF p1, of ?ce] by (simp add: w1)
  have "h \<in> fst ` set ?es" using ce by force
  then show "timeouts_of c (advance dt m) = []"
    unfolding advance_timeouts_of fold_fire_timeouts_of t by simp
  show "pendingWrites (advance dt m) c = None"
    using fold_fire_other [OF o2, of ?m2] a by (simp add: advance_def f)
  show "debounceTimers (advance dt m) c = None"
    using fold_fire_other [OF o2, of ?m2] b by (simp add: advance_def f)
  show "writes_to (STORAGE_PREFIX @ c) (advance dt m) =
          writes_to (STORAGE_PREFIX @ c) m
          @ (if writable (localStorage m) then [JSON_stringify v] else [])"
    using fold_fire_other [OF o2, of ?m2] cw by (simp add: advance_def f writes_to_def)
  show "items (localStorage (advance dt m)) (STORAGE_PREFIX @ c) = Some (JSON_stringify v)"
    if "writable (localStorage m)"
    using fold_fire_other [OF o2, of ?m2] di [OF that] by (simp add: advance_def f)
qed

lemma writes_to_storage:
  "localStorage m' = localStorage m \<Longrightarrow> writes_to k m' = writes_to k m"
  by (simp add: writes_to_def)

lemma burst_armed:
  assumes "module_ok m" and "c \<noteq> []" and "\<forall>p \<in> set rest. fst p < DEBOUNCE_MS"
    and "timeouts_of c m = [(h, clock m + DEBOUNCE_MS, c)]" and "pendingWrites m c = Some v"
  shows "module_ok (burst c rest m)
     \<and> (\<exists>h'. timeouts_of c (burst c rest m) = [(h', clock (burst c rest m) + DEBOUNCE_MS, c)])
     \<and> pendingWrites (burst c rest m) c = Some (last (v # map snd rest))
     \<and> writes_to (STORAGE_PREFIX @ c) (burst c rest m) = writes_to (STORAGE_PREFIX @ c) m
     \<and> writable (localStorage (burst c rest m)) = writable (localStorage m)"
  using assms
proof (induction rest arbitrary: m h v)
  case Nil
  then show ?case by simp
next
  case (Cons p rest)
  obtain g v' where p: "p = (g, v')" by (cases p)
  let ?a = "advance g m"
  let ?m = "saveProgress c v' ?a"
  have g: "clock m + g < clock m + DEBOUNCE_MS" using Cons.prems(3) by (simp add: p)
  have oka: "module_ok ?a" using Cons.prems(1) by (rule advance_ok)
  have ok: "module_ok ?m" using oka by (rule saveProgress_ok)
  have wa: "writes_to (STORAGE_PREFIX @ c) ?a = writes_to (STORAGE_PREFIX @ c) m"
    by (rule advance_early(3) [OF Cons.prems(1) Cons.prems(4) g])
  have t: "timeouts_of c ?m = [(nextTimeout ?a, clock ?m + DEBOUNCE_MS, c)]"
    using saveProgress_timeouts_of [OF oka Cons.prems(2), of v'] by (simp add: saveProgress_frame)
  have pw: "pendingWrites ?m c = Some v'"
    using Cons.prems(2) by (rule saveProgress_pending)
  have w: "writes_to (STORAGE_PREFIX @ c) ?m = writes_to (STORAGE_PREFIX @ c) m"
    using wa by (simp add: writes_to_storage [OF saveProgress_frame(1)])
  have wr: "writable (localStorage ?m) = writable (localStorage m)"
    by (simp add: saveProgress_frame advance_frame)
  have rest: "\<forall>p \<in> set rest. fst p < DEBOUNCE_MS" using Cons.prems(3) by simp
  have "module_ok (burst c rest ?m)
     \<and> (\<exists>h'. timeouts_of c (burst c rest ?m) = [(h', clock (burst c rest ?m) + DEBOUNCE_MS, c)])
     \<and> pendingWrites (burst c rest ?m) c = Some (last (v' # map snd rest))
     \<and> writes_to (STORAGE_PREFIX @ c) (burst c rest ?m) = writes_to (STORAGE_PREFIX @ c) ?m
     \<and> writable (localStorage (burst c rest ?m)) = writable (localStorage ?m)"
    by (rule Cons.IH [OF ok Cons.prems(2) rest t pw])
  then show ?case by (simp add: p w wr)
qed

text \<open>
  A burst of requests for a category, the first made in \<open>m\<close> and each later one less than
  the quiet period after the one before it, and then a wait of at least the quiet period.
\<close>

lemma burst_then_wait:
  assumes ok: "module_ok m" and c: "c \<noteq> []" and gaps: "\<forall>p \<in> set rest. fst p < DEBOUNCE_MS"
    and dt: "DEBOUNCE_MS \<le> dt"
  shows "writes_to (STORAGE_PREFIX @ c) (advance dt (burst c rest (saveProgress c v m))) =
          writes_to (STORAGE_PREFIX @ c) m
          @ (if writable (localStorage m) then [JSON_stringify (last (v # map snd rest))] else [])"
    and "writable (localStorage m) \<Longrightarrow>
          items (localStorage (advance dt (burst c rest (saveProgress c v m)))) (STORAGE_PREFIX @ c)
            = Some (JSON_stringify (last (v # map snd rest)))"
    and "length (timeouts_of c (burst c rest (saveProgress c v m))) = 1"
    and "pendingWrites (advance dt (burst c rest (saveProgress c v m))) c = None"
    and "timeouts_of c (advance dt (burst c rest (saveProgress c v m))) = []"
    and "writable (localStorage (advance dt (burst c rest (saveProgress c v m))))
          = writable (localStorage m)"
proof -
  let ?s = "saveProgress c v m"
  let ?b = "burst c rest ?s"
  have oks: "module_ok ?s" using ok by (rule saveProgress_ok)
  have ts: "timeouts_of c ?s = [(nextTimeout m, clock ?s + DEBOUNCE_MS, c)]"
    using saveProgress_timeouts_of [OF ok c, of v] by (simp add: saveProgress_frame)
  have ps: "pendingWrites ?s c = Some v" using c by (rule saveProgress_pending)
  have b: "module_ok ?b
     \<and> (\<exists>h'. timeouts_of c ?b = [(h', clock ?b + DEBOUNCE_MS, c)])
     \<and> pendingWrites ?b c = Some (last (v # map snd rest))
     \<and> writes_to (STORAGE_PREFIX @ c) ?b = writes_to (STORAGE_PREFIX @ c) ?s
     \<and> writable (localStorage ?b) = writable (localStorage ?s)"
    by (rule burst_armed [OF oks c gaps ts ps])
  then obtain h' where tb: "timeouts_of c ?b = [(h', clock ?b + DEBOUNCE_MS, c)]" by blast
  have okb: "module_ok ?b" and pb: "pendingWrites ?b c = Some (last (v # map snd rest))"
    using b by simp_all
  have wb: "writes_to (STORAGE_PREFIX @ c) ?b = writes_to (STORAGE_PREFIX @ c) m"
    using b by (simp add: writes_to_storage [OF saveProgress_frame(1)])
  have wrb: "writable (localStorage ?b) = writable (localStorage m)"
    using b by (simp add: saveProgress_frame)
  have late: "clock ?b + DEBOUNCE_MS \<le> clock ?b + dt" using dt by simp
  show "writes_to (STORAGE_PREFIX @ c) (advance dt ?b) =
          writes_to (STORAGE_PREFIX @ c) m
          @ (if writable (localStorage m) then [JSON_stringify (last (v # map snd rest))] else [])"
    using advance_late(4) [OF okb tb pb late] by (simp add: wb wrb)
  show "items (localStorage (advance dt ?b)) (STORAGE_PREFIX @ c)
            = Some (JSON_stringify (last (v # map snd rest)))"
    if "writable (localStorage m)"
    using advance_late(5) [OF okb tb pb late] that by (simp add: wrb)
  show "length (timeouts_of c ?b) = 1" by (simp add: tb)
  show "pendingWrites (advance dt ?b) c = None"
    by (rule advance_late(2) [OF okb tb pb late])
  show "timeouts_of c (advance dt ?b) = []"
    by (rule advance_late(1) [OF okb tb pb late])
  show "writable (localStorage (advance dt ?b)) = writable (localStorage m)"
    by (simp add: advance_frame wrb)
qed

lemma loadProgress_valid:
  assumes "c \<noteq> []" and "accessible ls" and "items ls (STORAGE_PREFIX @ c) = Some txt"
    and "txt \<noteq> []" and "JSON_parse txt = Inr parsed" and "validate parsed = Inr (Some p)"
  shows "loadProgress c ls = Inr (Some p, ls)"
  using assms by (simp add: loadProgress_def loadProgress_try_def getItem_def Let_def)

lemma JSON_stringify_nonempty: "JSON_stringify data \<noteq> []"
  by (simp add: JSON_stringify_def)

lemma JSON_parse_stringify_null:
  assumes "json_number (index data) = ''null''"
  shows "JSON_parse (JSON_stringify data) =
     Inr (JObject [(''index'', JNull), (''completed'', JBool (completed data)),
                   (''showTranslation'', JBool (showTranslation data))])"
proof -
  have "JSON_stringify data =
      CHR ''{'' # quoted ''index'' @ CHR '':'' # ''null'' @ CHR '','' # quoted ''completed''
        @ CHR '':'' # json_bool (completed data) @ CHR '','' # quoted ''showTranslation''
        @ CHR '':'' # json_bool (showTranslation data) @ ''}''"
    by (simp add: JSON_stringify_def assms)
  then have "tokenize (JSON_stringify data) =
     Some [LBrace, TString ''index'', Colon, TNull, Comma,
           TString ''completed'', Colon, (if completed data then TTrue else TFalse), Comma,
           TString ''showTranslation'', Colon,
           (if showTranslation data then TTrue else TFalse), RBrace]"
    by (simp only: tokenize_punctuation tokenize_keys tokenize_bool tokenize_null
        tokenize.simps(1) option.map)
  then show ?thesis
    by (cases "completed data"; cases "showTranslation data")
      (simp_all add: JSON_parse_def parse_value.simps parse_after.simps key_colon_def)
qed

lemma save_wait_load_null:
  assumes ok: "module_ok m" and c: "c \<noteq> []" and w: "writable (localStorage m)"
    and n: "json_number (index d) = ''null''" and dt: "DEBOUNCE_MS \<le> dt"
  shows "save_wait_load c d dt m = Inr None"
proof -
  let ?ls = "localStorage (advance dt (saveProgress c d m))"
  have none: "\<forall>p \<in> set ([] :: (nat \<times> LessonProgress) list). fst p < DEBOUNCE_MS" by simp
  have stored: "items ?ls (STORAGE_PREFIX @ c) = Some (JSON_stringify d)"
    using burst_then_wait(2) [OF ok c none dt w, where v = d] by simp
  have "writable ?ls"
    using burst_then_wait(6) [OF ok c none dt, where v = d] w by simp
  then have acc: "accessible ?ls" by (simp add: writable_def)
  have "\<not> well_formed (JSON_stringify d)"
    by (simp add: well_formed_def JSON_parse_stringify_null [OF n] is_number_def)
  then have "loadProgress c ?ls =
      Inr (None, ?ls\<lparr>items := (items ?ls)(STORAGE_PREFIX @ c := None)\<rparr>)"
    using loadProgress_malformed [OF c acc stored JSON_stringify_nonempty] by simp
  then show ?thesis by (simp add: save_wait_load_def)
qed

lemma module_run_Nil: "module_run [] m = m"
  by (simp add: module_run_def)

text \<open>
  Claim C3, as the code has it. In a module state reached from the initial one, after a
  burst of requests for a non-empty category, each less than \<open>DEBOUNCE_MS\<close> after the one
  before it, exactly one timeout is pending for the category. When at least \<open>DEBOUNCE_MS\<close>
  have passed after the last request, the storage has accepted exactly one write under
  the category's key, of the text of the last requested value, if it accepts writes, and
  none if it does not; nothing stays pending for the category.
\<close>

theorem C3_debounced_write_once_last_value:
  assumes "m = module_run events (module_init ls)"
    and "categoryId \<noteq> []"
    and "\<forall>p \<in> set rest. fst p < DEBOUNCE_MS"
    and "DEBOUNCE_MS \<le> dt"
  shows "writes_to (STORAGE_PREFIX @ categoryId)
           (advance dt (burst categoryId rest (saveProgress categoryId v m))) =
          writes_to (STORAGE_PREFIX @ categoryId) m
          @ (if writable (localStorage m) then [JSON_stringify (last (v # map snd rest))] else [])
     \<and> (writable (localStorage m) \<longrightarrow>
          items (localStorage (advance dt (burst categoryId rest (saveProgress categoryId v m))))
            (STORAGE_PREFIX @ categoryId) = Some (JSON_stringify (last (v # map snd rest))))
     \<and> length (timeouts_of categoryId (burst categoryId rest (saveProgress categoryId v m))) = 1
     \<and> pendingWrites (advance dt (burst categoryId rest (saveProgress categoryId v m))) categoryId
          = None
     \<and> timeouts_of categoryId (advance dt (burst categoryId rest (saveProgress categoryId v m))) = []"
proof -
  have ok: "module_ok m" unfolding assms(1) by (rule module_reachable_ok)
  show ?thesis
    using burst_then_wait [OF ok assms(2) assms(3) assms(4), of v] by simp
qed

theorem C3_witness:
  "fst (50 :: nat, \<lparr>index = Finite 3, completed = False, showTranslation = True\<rparr>) < DEBOUNCE_MS
   \<and> DEBOUNCE_MS \<le> 200
   \<and> writable (localStorage (module_run [] (module_init empty_storage)))
   \<and> writes_to ''progress:animals''
        (advance 200
          (burst ''animals'' [(50, \<lparr>index = Finite 3, completed = False, showTranslation = True\<rparr>)]
            (saveProgress ''animals'' \<lparr>index = Finite 2, completed = False, showTranslation = True\<rparr>
              (module_run [] (module_init empty_storage))))) =
       [JSON_stringify \<lparr>index = Finite 3, completed = False, showTranslation = True\<rparr>]"
  using C3_debounced_write_once_last_value
    [OF refl, where categoryId = "''animals''" and dt = 200 and events = "[]"
      and ls = empty_storage
      and rest = "[(50, \<lparr>index = Finite 3, completed = False, showTranslation = True\<rparr>)]"
      and v = "\<lparr>index = Finite 2, completed = False, showTranslation = True\<rparr>"]
  by (simp add: DEBOUNCE_MS_def module_run_Nil module_init_def empty_storage_def writable_def
      writes_to_def STORAGE_PREFIX_def)

text \<open>
  The claim as stated fails when the storage rejects the write: the request is made, the
  timeout runs, and no write has occurred.
\<close>

theorem C3_counterexample:
  "writes_to ''progress:animals''
     (advance 200
       (saveProgress ''animals'' \<lparr>index = Finite 2, completed = False, showTranslation = True\<rparr>
         (module_init full_storage))) = []
   \<and> pendingWrites
       (advance 200
         (saveProgress ''animals'' \<lparr>index = Finite 2, completed = False, showTranslation = True\<rparr>
           (module_init full_storage))) ''animals'' = None"
  using burst_then_wait(1) [OF module_init_ok [of full_storage], where c = "''animals''"
      and rest = "[]" and dt = 200
      and v = "\<lparr>index = Finite 2, completed = False, showTranslation = True\<rparr>"]
    burst_then_wait(4) [OF module_init_ok [of full_storage], where c = "''animals''"
      and rest = "[]" and dt = 200
      and v = "\<lparr>index = Finite 2, completed = False, showTranslation = True\<rparr>"]
  by (simp add: DEBOUNCE_MS_def module_init_def full_storage_def writable_def writes_to_def
      STORAGE_PREFIX_def)

text \<open>
  Claim C10, as the code has it. In a module state reached from the initial one whose
  storage accepts writes, a request for a non-empty category with a value whose index is
  a finite number, followed by at least \<open>DEBOUNCE_MS\<close> without another request, makes a
  load of the category return that value. The finite numbers are the numbers that a
  decimal text denotes, \<open>i / 10 ^ k\<close> for an integer \<open>i\<close>; among them are the integers
  (\<open>k = 0\<close>) and the binary fractions \<open>i / 2 ^ k\<close>, which are \<open>i * 5 ^ k / 10 ^ k\<close>.
\<close>

theorem C10_save_then_load_round_trip:
  assumes "m = module_run events (module_init ls)"
    and "categoryId \<noteq> []"
    and "writable (localStorage m)"
    and "index data = Finite (of_int i / 10 ^ k)"
    and "DEBOUNCE_MS \<le> dt"
  shows "save_wait_load categoryId data dt m = Inr (Some data)"
proof -
  let ?ls = "localStorage (advance dt (saveProgress categoryId data m))"
  have ok: "module_ok m" unfolding assms(1) by (rule module_reachable_ok)
  have none: "\<forall>p \<in> set ([] :: (nat \<times> LessonProgress) list). fst p < DEBOUNCE_MS" by simp
  have stored: "items ?ls (STORAGE_PREFIX @ categoryId) = Some (JSON_stringify data)"
    using burst_then_wait(2) [OF ok assms(2) none assms(5) assms(3), of data] by simp
  have "writable ?ls"
    using burst_then_wait(6) [OF ok assms(2) none assms(5), of data] assms(3) by simp
  then have acc: "accessible ?ls" by (simp add: writable_def)
  obtain parsed where "JSON_parse (JSON_stringify data) = Inr parsed"
    and "validate parsed = Inr (Some data)"
    using validate_stringify [OF assms(4)] by blast
  then have "loadProgress categoryId ?ls = Inr (Some data, ?ls)"
    using loadProgress_valid [OF assms(2) acc stored JSON_stringify_nonempty] by simp
  then show ?thesis by (simp add: save_wait_load_def)
qed

theorem C10_witness:
  "writable (localStorage (module_run [] (module_init empty_storage)))
   \<and> index \<lparr>index = Finite (5 / 2), completed = False, showTranslation = True\<rparr>
       = Finite (of_int 25 / 10 ^ 1)
   \<and> index \<lparr>index = Finite (- 3), completed = True, showTranslation = False\<rparr>
       = Finite (of_int (- 3) / 10 ^ 0)
   \<and> DEBOUNCE_MS \<le> 250
   \<and> number_to_string (Finite (5 / 2)) = ''2.5''
   \<and> save_wait_load ''animals'' \<lparr>index = Finite (5 / 2), completed = False, showTranslation = True\<rparr>
        250 (module_run [] (module_init empty_storage))
      = Inr (Some \<lparr>index = Finite (5 / 2), completed = False, showTranslation = True\<rparr>)
   \<and> save_wait_load ''animals'' \<lparr>index = Finite (- 3), completed = True, showTranslation = False\<rparr>
        250 (module_run [] (module_init empty_storage))
      = Inr (Some \<lparr>index = Finite (- 3), completed = True, showTranslation = False\<rparr>)"
proof -
  have printed: "number_to_string (Finite (5 / 2)) = ''2.5''"
    by code_simp
  show ?thesis
    using printed
      C10_save_then_load_round_trip
        [OF refl, where categoryId = "''animals''" and events = "[]" and ls = empty_storage
          and data = "\<lparr>index = Finite (5 / 2), completed = False, showTranslation = True\<rparr>"
          and i = 25 and k = 1 and dt = 250]
      C10_save_then_load_round_trip
        [OF refl, where categoryId = "''animals''" and events = "[]" and ls = empty_storage
          and data = "\<lparr>index = Finite (- 3), completed = True, showTranslation = False\<rparr>"
          and i = "- 3" and k = 0 and dt = 250]
    by (simp add: DEBOUNCE_MS_def module_run_Nil module_init_def empty_storage_def writable_def)
qed

text \<open>
  The claim as stated fails for an index that is not a finite number: its JSON text is
  \<open>null\<close>, which the validation of \<open>loadProgress\<close> rejects.
\<close>

theorem C10_counterexample:
  "save_wait_load ''animals'' \<lparr>index = NaN, completed = False, showTranslation = True\<rparr> 200
     (module_init empty_storage) = Inr None
   \<and> save_wait_load ''animals'' \<lparr>index = PosInfinity, completed = False, showTranslation = True\<rparr> 200
     (module_init empty_storage) = Inr None
   \<and> save_wait_load ''animals'' \<lparr>index = NegInfinity, completed = False, showTranslation = True\<rparr> 200
     (module_init empty_storage) = Inr None"
proof -
  have w: "writable (localStorage (module_init empty_storage :: progress_module))"
    by (simp add: module_init_def empty_storage_def writable_def)
  have dt: "DEBOUNCE_MS \<le> 200" by (simp add: DEBOUNCE_MS_def)
  have c: "''animals'' \<noteq> []" by simp
  show ?thesis
    using save_wait_load_null [OF module_init_ok c w _ dt,
        where d = "\<lparr>index = NaN, completed = False, showTranslation = True\<rparr>"]
      save_wait_load_null [OF module_init_ok c w _ dt,
        where d = "\<lparr>index = PosInfinity, completed = False, showTranslation = True\<rparr>"]
      save_wait_load_null [OF module_init_ok c w _ dt,
        where d = "\<lparr>index = NegInfinity, completed = False, showTranslation = True\<rparr>"]
    by (simp add: json_number_def)
qed

end
